theory Spec2Isabelle
  imports Main "HOL-Library.Log_Nat" "HOL-Library.Multiset" "HOL-Library.Sublist"
    "HOL-Library.List_Lexorder"
begin

section \<open>JavaScript numbers\<close>

text \<open>
  A JavaScript Number is an IEEE 754 binary64 value. The model keeps the exact rational
  value of a finite double, the two infinities and NaN. The two zeros are identified:
  they are equal under every comparison the program makes, and its only division is
  guarded by a test that the divisor is greater than zero.
\<close>

datatype jsnum = Fin rat | PInf | NInf | NaN

text \<open>\<open>ilog2 a\<close> is the binary exponent of a positive rational: \<open>2^e \<le> a < 2^(e+1)\<close>.\<close>

definition ilog2 :: "rat \<Rightarrow> int" where
  "ilog2 a = (if 1 \<le> a then bitlen \<lfloor>a\<rfloor> - 1 else - bitlen (\<lceil>1 / a\<rceil> - 1))"

definition round_half_even :: "rat \<Rightarrow> int" where
  "round_half_even m =
     (let f = \<lfloor>m\<rfloor>; d = m - of_int f
      in if d < 1 / 2 then f
         else if 1 / 2 < d then f + 1
         else if even f then f else f + 1)"

text \<open>
  Rounding of a positive magnitude to the binary64 grid: 53 significant bits for a normal
  number, multiples of \<open>2^-1074\<close> below \<open>2^-1022\<close>, ties to the even significand.
\<close>

definition round_mag :: "rat \<Rightarrow> rat" where
  "round_mag a =
     (let e = max (ilog2 a) (- 1022); q = power_int 2 (e - 52)
      in of_int (round_half_even (a / q)) * q)"

text \<open>A magnitude of at least \<open>2^1024 - 2^970\<close> rounds to infinity.\<close>

definition dbl_overflow :: rat where
  "dbl_overflow = 2 ^ 1024 - 2 ^ 970"

definition round_double :: "rat \<Rightarrow> jsnum" where
  "round_double r =
     (if r = 0 then Fin 0
      else if dbl_overflow \<le> \<bar>r\<bar> then (if 0 < r then PInf else NInf)
      else Fin (sgn r * round_mag \<bar>r\<bar>))"

text \<open>The operators \<open>-\<close>, \<open>/\<close> and \<open>*\<close> on Numbers.\<close>

fun js_sub :: "jsnum \<Rightarrow> jsnum \<Rightarrow> jsnum" where
  "js_sub NaN _ = NaN"
| "js_sub _ NaN = NaN"
| "js_sub (Fin x) (Fin y) = round_double (x - y)"
| "js_sub (Fin x) PInf = NInf"
| "js_sub (Fin x) NInf = PInf"
| "js_sub PInf PInf = NaN"
| "js_sub PInf _ = PInf"
| "js_sub NInf NInf = NaN"
| "js_sub NInf _ = NInf"

fun js_div :: "jsnum \<Rightarrow> jsnum \<Rightarrow> jsnum" where
  "js_div NaN _ = NaN"
| "js_div _ NaN = NaN"
| "js_div (Fin x) (Fin y) =
     (if y = 0 then (if x = 0 then NaN else if 0 < x then PInf else NInf)
      else round_double (x / y))"
| "js_div (Fin x) _ = Fin 0"
| "js_div PInf (Fin y) = (if 0 \<le> y then PInf else NInf)"
| "js_div NInf (Fin y) = (if 0 \<le> y then NInf else PInf)"
| "js_div _ _ = NaN"

fun js_mul :: "jsnum \<Rightarrow> jsnum \<Rightarrow> jsnum" where
  "js_mul NaN _ = NaN"
| "js_mul _ NaN = NaN"
| "js_mul (Fin x) (Fin y) = round_double (x * y)"
| "js_mul (Fin x) PInf = (if x = 0 then NaN else if 0 < x then PInf else NInf)"
| "js_mul (Fin x) NInf = (if x = 0 then NaN else if 0 < x then NInf else PInf)"
| "js_mul PInf (Fin y) = (if y = 0 then NaN else if 0 < y then PInf else NInf)"
| "js_mul NInf (Fin y) = (if y = 0 then NaN else if 0 < y then NInf else PInf)"
| "js_mul PInf PInf = PInf"
| "js_mul PInf NInf = NInf"
| "js_mul NInf PInf = NInf"
| "js_mul NInf NInf = PInf"

text \<open>The relations \<open>v > 0\<close>, \<open>v < 0\<close> and \<open>a <= b\<close>; each is false when an operand is NaN.\<close>

fun js_gt0 :: "jsnum \<Rightarrow> bool" where
  "js_gt0 (Fin r) = (0 < r)"
| "js_gt0 PInf = True"
| "js_gt0 _ = False"

fun js_lt0 :: "jsnum \<Rightarrow> bool" where
  "js_lt0 (Fin r) = (r < 0)"
| "js_lt0 NInf = True"
| "js_lt0 _ = False"

fun js_le :: "jsnum \<Rightarrow> jsnum \<Rightarrow> bool" where
  "js_le NaN _ = False"
| "js_le _ NaN = False"
| "js_le NInf _ = True"
| "js_le _ PInf = True"
| "js_le (Fin x) (Fin y) = (x \<le> y)"
| "js_le _ _ = False"

fun isNaN :: "jsnum \<Rightarrow> bool" where
  "isNaN NaN = True"
| "isNaN _ = False"

fun isFinite :: "jsnum \<Rightarrow> bool" where
  "isFinite (Fin _) = True"
| "isFinite _ = False"

section \<open>Strings and \<open>parseFloat\<close>\<close>

text \<open>
  Strings are lists of code units below 256. White space is what \<open>trim\<close> and
  \<open>parseFloat\<close> skip: TAB, LF, VT, FF, CR, SP and NBSP in this range.
\<close>

definition is_digit :: "char \<Rightarrow> bool" where
  "is_digit c = (c \<in> set ''0123456789'')"

definition digit_val :: "char \<Rightarrow> nat" where
  "digit_val c = of_char c - 48"

definition digits_value :: "string \<Rightarrow> nat" where
  "digits_value ds = foldl (\<lambda>n c. 10 * n + digit_val c) 0 ds"

definition is_space :: "char \<Rightarrow> bool" where
  "is_space c = (of_char c \<in> {9, 10, 11, 12, 13, 32, 160 :: nat})"

definition trim :: "string \<Rightarrow> string" where
  "trim s = rev (dropWhile is_space (rev (dropWhile is_space s)))"

text \<open>
  The longest prefix that is an ExponentPart (\<open>e\<close> or \<open>E\<close>, an optional sign, digits)
  gives the decimal exponent; no such prefix gives 0.
\<close>

definition exponent_digits :: "string \<Rightarrow> int" where
  "exponent_digits s =
     (let ds = takeWhile is_digit s in if ds = [] then 0 else int (digits_value ds))"

definition parse_exponent :: "string \<Rightarrow> int" where
  "parse_exponent s =
     (case s of
        [] \<Rightarrow> 0
      | c # r \<Rightarrow>
          if c = CHR ''e'' \<or> c = CHR ''E'' then
            (case r of
               [] \<Rightarrow> 0
             | sg # r' \<Rightarrow>
                 if sg = CHR ''+'' then exponent_digits r'
                 else if sg = CHR ''-'' then - exponent_digits r'
                 else exponent_digits r)
          else 0)"

datatype literal = NoLit | InfLit | DecLit rat

text \<open>
  The longest prefix that is a StrUnsignedDecimalLiteral, and its mathematical value:
  \<open>Infinity\<close>, digits with an optional fraction, or a point followed by digits, each with
  an optional exponent.
\<close>

definition parse_unsigned :: "string \<Rightarrow> literal" where
  "parse_unsigned u =
     (if prefix ''Infinity'' u then InfLit
      else
        let ip = takeWhile is_digit u; r1 = dropWhile is_digit u
        in case r1 of
             [] \<Rightarrow> if ip = [] then NoLit else DecLit (of_nat (digits_value ip))
           | c # r2 \<Rightarrow>
               if c = CHR ''.'' then
                 (let fp = takeWhile is_digit r2; r3 = dropWhile is_digit r2
                  in if ip = [] \<and> fp = [] then NoLit
                     else DecLit ((of_nat (digits_value ip)
                                     + of_nat (digits_value fp) / 10 ^ length fp)
                                  * power_int 10 (parse_exponent r3)))
               else if ip = [] then NoLit
               else DecLit (of_nat (digits_value ip) * power_int 10 (parse_exponent r1)))"

definition parseFloat :: "string \<Rightarrow> jsnum" where
  "parseFloat s =
     (let t = dropWhile is_space s;
          (neg, u) = (case t of
                        [] \<Rightarrow> (False, t)
                      | c # r \<Rightarrow> if c = CHR ''-'' then (True, r)
                                 else if c = CHR ''+'' then (False, r)
                                 else (False, t))
      in case parse_unsigned u of
           NoLit \<Rightarrow> NaN
         | InfLit \<Rightarrow> (if neg then NInf else PInf)
         | DecLit v \<Rightarrow> round_double (if neg then - v else v))"

section \<open>carros.js: the currency parser\<close>

text \<open>\<open>s.replace(",", ".")\<close> and the like: the first occurrence of a pattern is replaced.\<close>

fun replace_first :: "string \<Rightarrow> string \<Rightarrow> string \<Rightarrow> string" where
  "replace_first pat rep [] = (if pat = [] then rep else [])"
| "replace_first pat rep (c # cs) =
     (if prefix pat (c # cs) then rep @ drop (length pat) (c # cs)
      else c # replace_first pat rep cs)"

text \<open>\<open>s.lastIndexOf(c)\<close>: the last index of the character, -1 when it does not occur.\<close>

fun lastIndexOf :: "string \<Rightarrow> char \<Rightarrow> int" where
  "lastIndexOf [] c = - 1"
| "lastIndexOf (x # xs) c =
     (let i = lastIndexOf xs c in if 0 \<le> i then i + 1 else if x = c then 0 else - 1)"

text \<open>
  \<open>cleanAndParseValue\<close> of carros.js. The argument is absent (\<open>None\<close>) or a string; an
  absent or empty argument is falsy.
\<close>

definition cleanAndParseValue :: "string option \<Rightarrow> jsnum" where
  "cleanAndParseValue valorString =
     (case valorString of
        None \<Rightarrow> Fin 0
      | Some s \<Rightarrow>
          if s = [] then Fin 0
          else
            let cleaned0 = trim (filter (\<lambda>c. is_digit c \<or> c = CHR ''.'' \<or> c = CHR '','') s);
                commaCount = length (filter (\<lambda>c. c = CHR '','') cleaned0);
                dotCount = length (filter (\<lambda>c. c = CHR ''.'') cleaned0);
                cleanedValue =
                  (if 0 < commaCount \<and> 0 < dotCount then
                     (if lastIndexOf cleaned0 (CHR ''.'') < lastIndexOf cleaned0 (CHR '','')
                      then replace_first '','' ''.'' (filter (\<lambda>c. c \<noteq> CHR ''.'') cleaned0)
                      else filter (\<lambda>c. c \<noteq> CHR '','') cleaned0)
                   else if commaCount = 1 \<and> dotCount = 0 then
                     replace_first '','' ''.'' cleaned0
                   else cleaned0);
                parsedValue = parseFloat cleanedValue
            in if isNaN parsedValue then Fin 0 else parsedValue)"

section \<open>carros.js: the discount calculator\<close>

text \<open>
  A catalog item as the program reads it: the brand, and the price fields, each of which
  may be absent from the JSON object. Further fields live in the record extension.
\<close>

record item =
  marca :: string
  valor :: "string option"
  preco_publico :: "string option"
  preco_pcd :: "string option"

text \<open>\<open>v || d\<close> on an optional string: an absent or empty string is falsy.\<close>

definition or_else :: "string option \<Rightarrow> string \<Rightarrow> string" where
  "or_else v d = (case v of None \<Rightarrow> d | Some s \<Rightarrow> if s = [] then d else s)"

text \<open>\<open>typeof v === "number"\<close> holds of every Number, NaN and the infinities included.\<close>

definition typeof_number :: "jsnum \<Rightarrow> bool" where
  "typeof_number v = True"

definition calculateDesconto :: "'a item_scheme \<Rightarrow> jsnum" where
  "calculateDesconto carro =
     (let precoPublico = cleanAndParseValue (Some (or_else (preco_publico carro) ''R$ 0,00''));
          precoPCD = cleanAndParseValue (Some (or_else (preco_pcd carro) ''R$ 0,00''))
      in if typeof_number precoPublico \<and> typeof_number precoPCD
         then js_sub precoPublico precoPCD
         else Fin 0)"

text \<open>
  A value returned by \<open>calculateDescontoPercentage\<close>: a Number or a String. The string
  that Number::toString gives for a Number is kept symbolic as \<open>JNumberToString\<close>.
\<close>

datatype jsval = JNum jsnum | JStr string | JNumberToString jsnum

fun digits_of :: "nat \<Rightarrow> string" where
  "digits_of n =
     (if n < 10 then [''0123456789'' ! n]
      else digits_of (n div 10) @ [''0123456789'' ! (n mod 10)])"

declare digits_of.simps [simp del]

text \<open>
  \<open>x.toFixed(2)\<close>: the integer \<open>n\<close> with \<open>n / 100\<close> nearest to the magnitude (the larger
  one on a tie), written with at least one digit before the point and two after it.
\<close>

definition toFixed2 :: "jsnum \<Rightarrow> jsval" where
  "toFixed2 v =
     (case v of
        NaN \<Rightarrow> JStr ''NaN''
      | PInf \<Rightarrow> JStr ''Infinity''
      | NInf \<Rightarrow> JStr ''-Infinity''
      | Fin x \<Rightarrow>
          if 10 ^ 21 \<le> \<bar>x\<bar> then JNumberToString (Fin x)
          else
            let n = nat \<lfloor>\<bar>x\<bar> * 100 + 1 / 2\<rfloor>;
                m0 = digits_of n;
                m = (if length m0 \<le> 2 then replicate (3 - length m0) (CHR ''0'') @ m0 else m0);
                k = length m
            in JStr ((if x < 0 then ''-'' else []) @ take (k - 2) m @ ''.'' @ drop (k - 2) m))"

definition calculateDescontoPercentage :: "'a item_scheme \<Rightarrow> jsval" where
  "calculateDescontoPercentage carro =
     (let desconto = calculateDesconto carro;
          precoPublico = cleanAndParseValue (Some (or_else (preco_publico carro) ''R$ 0,00''))
      in if js_gt0 precoPublico
         then toFixed2 (js_mul (js_div desconto precoPublico) (Fin 100))
         else JNum (Fin 0))"

section \<open>\<open>Array.prototype.sort\<close>\<close>

datatype error = TypeError

text \<open>
  The engine sorts through SortCompare, which hands it the sign of the number that the
  comparison function returns; NaN counts as zero.
\<close>

definition js_sign :: "jsnum \<Rightarrow> int" where
  "js_sign v = (if js_lt0 v then - 1 else if js_gt0 v then 1 else 0)"

definition sort_compare :: "('a \<Rightarrow> 'a \<Rightarrow> error + jsnum) \<Rightarrow> 'a \<Rightarrow> 'a \<Rightarrow> int option" where
  "sort_compare cmp a b = (case cmp a b of Inl e \<Rightarrow> None | Inr v \<Rightarrow> Some (js_sign v))"

text \<open>
  A consistent comparison for the elements of an array: no call throws, the two orders of
  a pair give opposite signs, and "equal" and "before" are transitive.
\<close>

definition consistent_on :: "('a \<Rightarrow> 'a \<Rightarrow> error + jsnum) \<Rightarrow> 'a list \<Rightarrow> bool" where
  "consistent_on cmp xs =
     ((\<forall>a\<in>set xs. \<forall>b\<in>set xs.
         sort_compare cmp a b \<noteq> None
         \<and> sort_compare cmp b a = map_option uminus (sort_compare cmp a b))
      \<and> (\<forall>a\<in>set xs. \<forall>b\<in>set xs. \<forall>c\<in>set xs.
            sort_compare cmp a b = Some 0 \<and> sort_compare cmp b c = Some 0
              \<longrightarrow> sort_compare cmp a c = Some 0)
      \<and> (\<forall>a\<in>set xs. \<forall>b\<in>set xs. \<forall>c\<in>set xs.
            sort_compare cmp a b = Some (- 1) \<and> sort_compare cmp b c = Some (- 1)
              \<longrightarrow> sort_compare cmp a c = Some (- 1)))"

text \<open>
  The stable insertion sort: an element moves behind the elements that followed it
  exactly when the comparison is greater than zero.
\<close>

fun sort_insert :: "('a \<Rightarrow> 'a \<Rightarrow> error + jsnum) \<Rightarrow> 'a \<Rightarrow> 'a list \<Rightarrow> error + 'a list" where
  "sort_insert cmp x [] = Inr [x]"
| "sort_insert cmp x (y # ys) =
     (case cmp x y of
        Inl e \<Rightarrow> Inl e
      | Inr v \<Rightarrow>
          if js_gt0 v then
            (case sort_insert cmp x ys of Inl e \<Rightarrow> Inl e | Inr r \<Rightarrow> Inr (y # r))
          else Inr (x # y # ys))"

fun insertion_sort :: "('a \<Rightarrow> 'a \<Rightarrow> error + jsnum) \<Rightarrow> 'a list \<Rightarrow> error + 'a list" where
  "insertion_sort cmp [] = Inr []"
| "insertion_sort cmp (x # xs) =
     (case insertion_sort cmp xs of Inl e \<Rightarrow> Inl e | Inr ys \<Rightarrow> sort_insert cmp x ys)"

text \<open>
  The language fixes the result of the sort only for a consistent comparison function:
  the stable sort, which the insertion sort computes. For any other comparison function
  (one that throws, or whose signs contradict each other, as with a NaN key) the calls
  made, an exception and the order returned are the engine's choice. The engine is the
  parameter \<open>eng\<close>; nothing is assumed of it.
\<close>

type_synonym 'a engine = "('a \<Rightarrow> 'a \<Rightarrow> error + jsnum) \<Rightarrow> 'a list \<Rightarrow> error + 'a list"

definition array_sort ::
  "'a engine \<Rightarrow> ('a \<Rightarrow> 'a \<Rightarrow> error + jsnum) \<Rightarrow> 'a list \<Rightarrow> error + 'a list" where
  "array_sort eng cmp xs =
     (if consistent_on cmp xs then insertion_sort cmp xs else eng cmp xs)"

section \<open>Arrays in the heap\<close>

text \<open>
  An array is held by reference. The heap lists the arrays allocated so far; a reference
  is an index into it.
\<close>

type_synonym addr = nat
type_synonym 'a heap = "'a list list"

definition alloc :: "'a heap \<Rightarrow> 'a list \<Rightarrow> addr \<times> 'a heap" where
  "alloc h xs = (length h, h @ [xs])"

text \<open>
  \<open>a.sort(cmp)\<close> sorts the array at \<open>a\<close> in place and returns \<open>a\<close>. When the sort throws,
  the array at \<open>a\<close> is kept as it was: in \<open>sortImoveis\<close> it is the fresh copy, which nothing
  refers to any more.
\<close>

definition sort_in_place ::
  "'a engine \<Rightarrow> 'a heap \<Rightarrow> addr \<Rightarrow> ('a \<Rightarrow> 'a \<Rightarrow> error + jsnum)
     \<Rightarrow> (error + addr) \<times> 'a heap" where
  "sort_in_place eng h a cmp =
     (case array_sort eng cmp (h ! a) of
        Inl e \<Rightarrow> (Inl e, h)
      | Inr ys \<Rightarrow> (Inr a, h[a := ys]))"

section \<open>carros.js: sortImoveis\<close>

text \<open>
  \<open>a.localeCompare(b, locale)\<close> is the collation of the runtime; it is the parameter \<open>lc\<close>,
  called as \<open>lc a b locale\<close>.
\<close>

definition sortImoveis ::
  "(string \<Rightarrow> string \<Rightarrow> string \<Rightarrow> jsnum) \<Rightarrow> 'a item_scheme engine
     \<Rightarrow> 'a item_scheme heap \<Rightarrow> addr \<Rightarrow> string
     \<Rightarrow> (error + addr) \<times> 'a item_scheme heap" where
  "sortImoveis lc eng h data sortOption =
     (let (sortedData, h1) = alloc h (h ! data)
      in if sortOption = ''valor_asc'' then
           sort_in_place eng h1 sortedData
             (\<lambda>a b. let valorA = cleanAndParseValue (preco_pcd a);
                         valorB = cleanAndParseValue (preco_pcd b)
                     in Inr (js_sub valorA valorB))
         else if sortOption = ''marca_asc'' then
           sort_in_place eng h1 sortedData (\<lambda>a b. Inr (lc (marca a) (marca b) ''pt-BR''))
         else if sortOption = ''desconto_desc'' then
           sort_in_place eng h1 sortedData
             (\<lambda>a b. let descontoA = calculateDesconto a;
                         descontoB = calculateDesconto b
                     in Inr (js_sub descontoB descontoA))
         else (Inr data, h1))"

section \<open>imoveis.js\<close>

text \<open>
  \<open>cleanAndParseValue\<close> of imoveis.js calls \<open>replace\<close> on its argument, which throws a
  TypeError when the argument is absent.
\<close>

definition imoveis_cleanAndParseValue :: "string option \<Rightarrow> error + jsnum" where
  "imoveis_cleanAndParseValue valorString =
     (case valorString of
        None \<Rightarrow> Inl TypeError
      | Some s \<Rightarrow>
          let cleanedValue =
                trim (replace_first '','' ''.''
                        (filter (\<lambda>c. c \<noteq> CHR ''.'') (replace_first ''R$'' [] s)))
          in Inr (parseFloat cleanedValue))"

definition imoveis_sortImoveis ::
  "(string \<Rightarrow> string \<Rightarrow> string \<Rightarrow> jsnum) \<Rightarrow> 'a item_scheme engine
     \<Rightarrow> 'a item_scheme heap \<Rightarrow> addr \<Rightarrow> string
     \<Rightarrow> (error + addr) \<times> 'a item_scheme heap" where
  "imoveis_sortImoveis lc eng h data sortOption =
     (let (sortedData, h1) = alloc h (h ! data)
      in if sortOption = ''valor_asc'' then
           sort_in_place eng h1 sortedData
             (\<lambda>a b. case imoveis_cleanAndParseValue (valor a) of
                       Inl e \<Rightarrow> Inl e
                     | Inr valorA \<Rightarrow>
                         (case imoveis_cleanAndParseValue (valor b) of
                            Inl e \<Rightarrow> Inl e
                          | Inr valorB \<Rightarrow> Inr (js_sub valorA valorB)))
         else if sortOption = ''marca_asc'' then
           sort_in_place eng h1 sortedData (\<lambda>a b. Inr (lc (marca a) (marca b) ''pt-BR''))
         else (Inr data, h1))"

section \<open>Example data\<close>

definition carro_fiat :: item where
  "carro_fiat = \<lparr>marca = ''Fiat'', valor = Some ''R$ 74.350,00'',
                  preco_publico = Some ''R$ 100,00'', preco_pcd = Some ''R$ 75,00''\<rparr>"

definition carro_audi :: item where
  "carro_audi = \<lparr>marca = ''Audi'', valor = Some ''R$ 50.000,00'',
                  preco_publico = Some ''R$ 90,00'', preco_pcd = Some ''R$ 60,00''\<rparr>"

definition example_heap :: "item heap" where
  "example_heap = [[carro_fiat, carro_audi]]"

text \<open>An item without a public price.\<close>

definition carro_sem_publico :: item where
  "carro_sem_publico = \<lparr>marca = ''Fiat'', valor = None,
                         preco_publico = None, preco_pcd = Some ''R$ 75,00''\<rparr>"

text \<open>A collation that ranks every two strings equal, and an engine that sorts nothing.\<close>

definition lc_equal :: "string \<Rightarrow> string \<Rightarrow> string \<Rightarrow> jsnum" where
  "lc_equal a b locale = Fin 0"

definition engine_keep :: "item engine" where
  "engine_keep cmp xs = Inr xs"

text \<open>Items of imoveis.json: a price, a text in place of the price, no price at all.\<close>

definition imovel_dois :: item where
  "imovel_dois = \<lparr>marca = ''Casa'', valor = Some ''R$ 2,00'',
                   preco_publico = None, preco_pcd = None\<rparr>"

definition imovel_consulta :: item where
  "imovel_consulta = \<lparr>marca = ''Lote'', valor = Some ''Sob consulta'',
                       preco_publico = None, preco_pcd = None\<rparr>"

definition imovel_um :: item where
  "imovel_um = \<lparr>marca = ''Sala'', valor = Some ''R$ 1,00'',
                 preco_publico = None, preco_pcd = None\<rparr>"

definition imovel_sem_valor :: item where
  "imovel_sem_valor = \<lparr>marca = ''Loja'', valor = None,
                        preco_publico = None, preco_pcd = None\<rparr>"

text \<open>A price of 310 digits, beyond the range of a double.\<close>

definition huge_price :: string where
  "huge_price = replicate 310 (CHR ''9'')"

definition carro_huge :: item where
  "carro_huge = \<lparr>marca = ''Jeep'', valor = None,
                  preco_publico = Some huge_price, preco_pcd = Some huge_price\<rparr>"

text \<open>
  Brands for the collation: \<open>Zeta\<close>, \<open>Alfa\<close>, and \<open>Alamo\<close> written with an acute accent on
  its first letter (code unit 193).
\<close>

definition carro_zeta :: item where
  "carro_zeta = \<lparr>marca = ''Zeta'', valor = None, preco_publico = None, preco_pcd = None\<rparr>"

definition carro_alfa :: item where
  "carro_alfa = \<lparr>marca = ''Alfa'', valor = None, preco_publico = None, preco_pcd = None\<rparr>"

definition carro_alamo :: item where
  "carro_alamo = \<lparr>marca = char_of (193::nat) # ''lamo'', valor = None,
                   preco_publico = None, preco_pcd = None\<rparr>"

definition brand_heap :: "item heap" where
  "brand_heap = [[carro_zeta, carro_alamo, carro_alfa]]"

section \<open>The alphabetic order of brands\<close>

text \<open>
  The letters of Portuguese among the code units below 256, and the letter of the
  alphabet each of them stands for once case and accent are set aside. A brand made of
  such letters has the sequence of its base letters as its primary key; the natural
  alphabetic order compares primary keys.
\<close>

definition is_latin :: "nat \<Rightarrow> bool" where
  "is_latin n =
     ((65 \<le> n \<and> n \<le> 90) \<or> (97 \<le> n \<and> n \<le> 122)
      \<or> (192 \<le> n \<and> n \<le> 197) \<or> n = 199 \<or> (200 \<le> n \<and> n \<le> 207)
      \<or> (210 \<le> n \<and> n \<le> 214) \<or> (217 \<le> n \<and> n \<le> 220)
      \<or> (224 \<le> n \<and> n \<le> 229) \<or> n = 231 \<or> (232 \<le> n \<and> n \<le> 239)
      \<or> (242 \<le> n \<and> n \<le> 246) \<or> (249 \<le> n \<and> n \<le> 252))"

definition fold_letter :: "nat \<Rightarrow> nat" where
  "fold_letter n =
     (if 97 \<le> n \<and> n \<le> 122 then n - 32
      else if (192 \<le> n \<and> n \<le> 197) \<or> (224 \<le> n \<and> n \<le> 229) then 65
      else if n = 199 \<or> n = 231 then 67
      else if (200 \<le> n \<and> n \<le> 203) \<or> (232 \<le> n \<and> n \<le> 235) then 69
      else if (204 \<le> n \<and> n \<le> 207) \<or> (236 \<le> n \<and> n \<le> 239) then 73
      else if (210 \<le> n \<and> n \<le> 214) \<or> (242 \<le> n \<and> n \<le> 246) then 79
      else if (217 \<le> n \<and> n \<le> 220) \<or> (249 \<le> n \<and> n \<le> 252) then 85
      else n)"

definition latin :: "string \<Rightarrow> bool" where
  "latin s = list_all (\<lambda>c. is_latin (of_char c)) s"

definition primary_key :: "string \<Rightarrow> nat list" where
  "primary_key s = map (\<lambda>c. fold_letter (of_char c)) s"

text \<open>
  A consistent comparison of strings, in the sense of the language: the two orders of a
  pair give opposite signs, and "equal" and "before" are transitive.
\<close>

definition consistent_compare :: "(string \<Rightarrow> string \<Rightarrow> jsnum) \<Rightarrow> bool" where
  "consistent_compare c =
     ((\<forall>a b. js_sign (c b a) = - js_sign (c a b))
      \<and> (\<forall>a b d. js_sign (c a b) = 0 \<and> js_sign (c b d) = 0 \<longrightarrow> js_sign (c a d) = 0)
      \<and> (\<forall>a b d. js_sign (c a b) = - 1 \<and> js_sign (c b d) = - 1 \<longrightarrow> js_sign (c a d) = - 1))"

text \<open>
  What is used of the collation of the runtime for the locale \<open>pt-BR\<close>: it is a consistent
  comparison, and between two brands made of letters it follows the base letters first:
  a difference of base letters decides, whatever the accents and the case.
\<close>

definition portuguese_collation :: "(string \<Rightarrow> string \<Rightarrow> string \<Rightarrow> jsnum) \<Rightarrow> bool" where
  "portuguese_collation lc =
     (consistent_compare (\<lambda>a b. lc a b ''pt-BR'')
      \<and> (\<forall>a b. latin a \<and> latin b \<and> primary_key a < primary_key b
                 \<longrightarrow> js_lt0 (lc a b ''pt-BR'')))"

text \<open>A collation for the examples: strings compare by their primary keys alone.\<close>

definition lc_fold :: "string \<Rightarrow> string \<Rightarrow> string \<Rightarrow> jsnum" where
  "lc_fold a b locale =
     (if primary_key a < primary_key b then Fin (- 1)
      else if primary_key b < primary_key a then Fin 1
      else Fin 0)"

section \<open>Notions used in the proofs\<close>

text \<open>A finite double is a multiple of \<open>2^-1074\<close>.\<close>

definition is_double :: "rat \<Rightarrow> bool" where
  "is_double v = (\<exists>n::int. v = of_int n * power_int 2 (- 1074))"

fun dbl :: "jsnum \<Rightarrow> bool" where
  "dbl (Fin v) = is_double v"
| "dbl _ = True"

text \<open>
  The insertion sort over a relation \<open>le\<close>: the result of \<open>insertion_sort\<close> when the
  comparison function never throws and is greater than zero exactly where \<open>le\<close> fails.
\<close>

fun ins :: "('a \<Rightarrow> 'a \<Rightarrow> bool) \<Rightarrow> 'a \<Rightarrow> 'a list \<Rightarrow> 'a list" where
  "ins le x [] = [x]"
| "ins le x (y # ys) = (if le x y then x # y # ys else y # ins le x ys)"

fun isort :: "('a \<Rightarrow> 'a \<Rightarrow> bool) \<Rightarrow> 'a list \<Rightarrow> 'a list" where
  "isort le [] = []"
| "isort le (x # xs) = ins le x (isort le xs)"

text \<open>"Not after" under a comparison function: the sign is not 1.\<close>

definition not_after :: "('a \<Rightarrow> 'a \<Rightarrow> error + jsnum) \<Rightarrow> 'a \<Rightarrow> 'a \<Rightarrow> bool" where
  "not_after cmp a b = (sort_compare cmp a b \<noteq> Some 1)"

text \<open>The parsed \<open>valor\<close> of an item of imoveis.js, NaN also when the call throws.\<close>

definition imoveis_valor :: "'a item_scheme \<Rightarrow> jsnum" where
  "imoveis_valor x = (case imoveis_cleanAndParseValue (valor x) of Inl e \<Rightarrow> NaN | Inr v \<Rightarrow> v)"

text \<open>The steps of \<open>cleanAndParseValue\<close> of carros.js, named.\<close>

definition keep_numeric :: "string \<Rightarrow> string" where
  "keep_numeric s = filter (\<lambda>c. is_digit c \<or> c = CHR ''.'' \<or> c = CHR '','') s"

definition normalise_separators :: "string \<Rightarrow> string" where
  "normalise_separators t =
     (if 0 < length (filter (\<lambda>c. c = CHR '','') t) \<and> 0 < length (filter (\<lambda>c. c = CHR ''.'') t) then
        (if lastIndexOf t (CHR ''.'') < lastIndexOf t (CHR '','')
         then replace_first '','' ''.'' (filter (\<lambda>c. c \<noteq> CHR ''.'') t)
         else filter (\<lambda>c. c \<noteq> CHR '','') t)
      else if length (filter (\<lambda>c. c = CHR '','') t) = 1 \<and> length (filter (\<lambda>c. c = CHR ''.'') t) = 0 then
        replace_first '','' ''.'' t
      else t)"

definition nan_to_zero :: "jsnum \<Rightarrow> jsnum" where
  "nan_to_zero p = (if isNaN p then Fin 0 else p)"

text \<open>
  A string of digits, points and commas, and the value of its longest prefix of the form
  digits, or digits point digits.
\<close>

definition numeric :: "string \<Rightarrow> bool" where
  "numeric t = (\<forall>c\<in>set t. is_digit c \<or> c = CHR ''.'' \<or> c = CHR '','')"

definition decimal_prefix :: "string \<Rightarrow> rat option" where
  "decimal_prefix t =
     (let ip = takeWhile is_digit t;
          fp = (case dropWhile is_digit t of
                  [] \<Rightarrow> []
                | c # r2 \<Rightarrow> if c = CHR ''.'' then takeWhile is_digit r2 else [])
      in if ip = [] \<and> fp = [] then None
         else Some (of_nat (digits_value ip) + of_nat (digits_value fp) / 10 ^ length fp))"

definition sign_of :: "('a \<Rightarrow> 'a \<Rightarrow> error + jsnum) \<Rightarrow> 'a \<Rightarrow> 'a \<Rightarrow> int" where
  "sign_of cmp a b = (case sort_compare cmp a b of None \<Rightarrow> 0 | Some s \<Rightarrow> s)"

definition key_sign :: "jsnum \<Rightarrow> jsnum \<Rightarrow> int" where
  "key_sign a b = (if a = b then 0 else if js_le a b then - 1 else 1)"

section \<open>Rounding to a double\<close>

lemma ilog2_lower:
  assumes "0 < a"
  shows "power_int 2 (ilog2 a) \<le> a"
proof (cases "1 \<le> a")
  case True
  define m where "m = \<lfloor>a\<rfloor>"
  have m1: "1 \<le> m" using True by (simp add: m_def le_floor_iff)
  then have bl: "1 \<le> bitlen m" by (auto simp: bitlen_alt_def)
  have "2 ^ nat (bitlen m - 1) \<le> m" using bitlen_bounds[of m] m1 by simp
  then have "(of_int (2 ^ nat (bitlen m - 1)) :: rat) \<le> of_int m" by (simp only: of_int_le_iff)
  also have "\<dots> \<le> a" by (simp add: m_def)
  finally have "(2::rat) ^ nat (bitlen m - 1) \<le> a" by simp
  moreover have "power_int (2::rat) (bitlen m - 1) = 2 ^ nat (bitlen m - 1)"
    using bl by (simp add: power_int_def)
  ultimately show ?thesis using True by (simp add: ilog2_def m_def)
next
  case False
  define m where "m = \<lceil>1 / a\<rceil>"
  define j where "j = bitlen (m - 1)"
  have "1 < 1 / a" using False assms by simp
  then have "1 < m" unfolding m_def by (simp add: less_ceiling_iff)
  then have m2: "2 \<le> m" by simp
  have "m - 1 < 2 ^ nat j" using bitlen_bounds[of "m - 1"] m2 by (simp add: j_def)
  then have "m \<le> 2 ^ nat j" by simp
  then have "(of_int m :: rat) \<le> of_int (2 ^ nat j)" by (simp only: of_int_le_iff)
  then have "(of_int m :: rat) \<le> 2 ^ nat j" by simp
  moreover have "1 / a \<le> of_int m" by (simp add: m_def)
  ultimately have "1 / a \<le> 2 ^ nat j" by linarith
  then have "1 \<le> 2 ^ nat j * a" using assms by (simp add: field_simps)
  then have "1 / 2 ^ nat j \<le> a" by (simp add: field_simps)
  moreover have "power_int (2::rat) (- j) = 1 / 2 ^ nat j"
    using bitlen_nonneg[of "m - 1"] by (simp add: power_int_def j_def field_simps)
  ultimately show ?thesis using False by (simp add: ilog2_def m_def j_def)
qed

lemma round_half_even_of_int: "round_half_even (of_int z) = z"
  by (simp add: round_half_even_def)

lemma round_half_even_ge1: "1 \<le> m \<Longrightarrow> 1 \<le> round_half_even m"
proof -
  assume "1 \<le> m"
  then have "1 \<le> \<lfloor>m\<rfloor>" by (simp add: le_floor_iff)
  then show ?thesis by (simp add: round_half_even_def Let_def)
qed

lemma pow2_pos: "0 < power_int (2::rat) k"
  by (simp add: zero_less_power_int)

lemma pow2_mono: "i \<le> j \<Longrightarrow> power_int (2::rat) i \<le> power_int 2 j"
  by (rule power_int_increasing) simp_all

lemma round_mag_pos:
  assumes "power_int 2 (- 1074) \<le> a"
  shows "0 < round_mag a"
proof -
  have apos: "0 < a" using assms pow2_pos[of "- 1074"] by linarith
  define e where "e = max (ilog2 a) (- 1022)"
  define q where "q = power_int (2::rat) (e - 52)"
  have qpos: "0 < q" by (simp add: q_def pow2_pos)
  have "q \<le> a"
  proof (cases "- 1022 \<le> ilog2 a")
    case True
    then have "e = ilog2 a" by (simp add: e_def)
    then have "q \<le> power_int 2 (ilog2 a)" unfolding q_def by (intro pow2_mono) simp
    then show ?thesis using ilog2_lower[OF apos] by linarith
  next
    case False
    then have "e = - 1022" by (simp add: e_def)
    then have "q = power_int 2 (- 1074)" by (simp add: q_def)
    then show ?thesis using assms by simp
  qed
  then have "1 \<le> a / q" using qpos by (simp add: field_simps)
  then have "1 \<le> round_half_even (a / q)" by (rule round_half_even_ge1)
  then have "(0::rat) < of_int (round_half_even (a / q))" by simp
  then have "0 < of_int (round_half_even (a / q)) * q" using qpos by simp
  then show ?thesis by (simp add: round_mag_def Let_def e_def q_def)
qed

lemma pow2_split: "- 1074 \<le> k \<Longrightarrow> power_int (2::rat) k = of_int (2 ^ nat (k + 1074)) * power_int 2 (- 1074)"
proof -
  assume "- 1074 \<le> k"
  have "power_int (2::rat) k = power_int 2 ((k + 1074) + (- 1074))" by simp
  also have "\<dots> = power_int 2 (k + 1074) * power_int 2 (- 1074)"
    by (rule power_int_add) simp
  also have "power_int (2::rat) (k + 1074) = 2 ^ nat (k + 1074)"
    using \<open>- 1074 \<le> k\<close> by (simp add: power_int_def)
  finally show ?thesis by simp
qed

lemma round_mag_is_double: "is_double (round_mag a)"
proof -
  define e where "e = max (ilog2 a) (- 1022)"
  define N where "N = round_half_even (a / power_int 2 (e - 52))"
  have "- 1074 \<le> e - 52" by (simp add: e_def)
  from pow2_split[OF this]
  have "round_mag a = of_int (N * 2 ^ nat (e - 52 + 1074)) * power_int 2 (- 1074)"
    by (simp add: round_mag_def Let_def e_def N_def)
  then show ?thesis unfolding is_double_def by blast
qed

lemma is_double_0: "is_double 0"
  unfolding is_double_def by (rule exI[of _ 0]) simp

lemma is_double_neg: "is_double v \<Longrightarrow> is_double (- v)"
  unfolding is_double_def
proof -
  assume "\<exists>n. v = of_int n * power_int 2 (- 1074)"
  then obtain n where "v = of_int n * power_int 2 (- 1074)" ..
  then have "- v = of_int (- n) * power_int 2 (- 1074)" by simp
  then show "\<exists>n. - v = of_int n * power_int 2 (- 1074)" ..
qed

lemma round_double_dbl: "dbl (round_double r)"
proof -
  have "is_double (sgn r * round_mag \<bar>r\<bar>)"
    using round_mag_is_double[of "\<bar>r\<bar>"] is_double_neg[of "round_mag \<bar>r\<bar>"] is_double_0
    by (cases "r = 0"; cases "0 < r") (simp_all add: sgn_if)
  then show ?thesis by (simp add: round_double_def is_double_0)
qed

lemma is_double_diff_ge:
  assumes "is_double x" "is_double y" "y < x"
  shows "power_int 2 (- 1074) \<le> x - y"
proof -
  obtain n where n: "x = of_int n * power_int 2 (- 1074)" using assms(1) unfolding is_double_def ..
  obtain m where m: "y = of_int m * power_int 2 (- 1074)" using assms(2) unfolding is_double_def ..
  have "of_int m * power_int (2::rat) (- 1074) < of_int n * power_int 2 (- 1074)"
    using assms(3) n m by simp
  then have "(of_int m :: rat) < of_int n" using pow2_pos[of "- 1074"]
    by (simp only: mult_less_cancel_right_pos)
  then have "m + 1 \<le> n" by simp
  then have "(of_int (m + 1) :: rat) \<le> of_int n" by (simp only: of_int_le_iff)
  then have "of_int (m + 1) * power_int (2::rat) (- 1074) \<le> of_int n * power_int 2 (- 1074)"
    using pow2_pos[of "- 1074"] by (simp only: mult_le_cancel_right_pos)
  then show ?thesis unfolding n m by (simp add: algebra_simps)
qed

lemma round_double_sign_pos:
  assumes "power_int 2 (- 1074) \<le> r"
  shows "js_gt0 (round_double r)" "\<not> js_lt0 (round_double r)"
proof -
  have rpos: "0 < r" using assms pow2_pos[of "- 1074"] by linarith
  have "0 < round_mag r" using assms by (rule round_mag_pos)
  then show "js_gt0 (round_double r)" "\<not> js_lt0 (round_double r)"
    using rpos by (simp_all add: round_double_def)
qed

lemma round_double_sign_neg:
  assumes "power_int 2 (- 1074) \<le> - r"
  shows "js_lt0 (round_double r)" "\<not> js_gt0 (round_double r)"
proof -
  have rneg: "r < 0" using assms pow2_pos[of "- 1074"] by linarith
  have "0 < round_mag (- r)" using assms by (rule round_mag_pos)
  then show "js_lt0 (round_double r)" "\<not> js_gt0 (round_double r)"
    using rneg by (simp_all add: round_double_def)
qed

lemma js_sub_gt0:
  assumes "dbl a" "dbl b" "a \<noteq> NaN" "b \<noteq> NaN"
  shows "js_gt0 (js_sub a b) \<longleftrightarrow> \<not> js_le a b"
proof (cases a; cases b)
  fix x y assume ab: "a = Fin x" "b = Fin y"
  then have d: "is_double x" "is_double y" using assms by simp_all
  consider "x = y" | "y < x" | "x < y" by linarith
  then show ?thesis
  proof cases
    case 1 then show ?thesis using ab by (simp add: round_double_def)
  next
    case 2
    from is_double_diff_ge[OF d 2] have "js_gt0 (round_double (x - y))"
      by (rule round_double_sign_pos)
    then show ?thesis using ab 2 by simp
  next
    case 3
    from is_double_diff_ge[OF d(2) d(1) 3] have "power_int 2 (- 1074) \<le> - (x - y)" by simp
    then have "\<not> js_gt0 (round_double (x - y))" by (rule round_double_sign_neg)
    then show ?thesis using ab 3 by simp
  qed
qed (use assms in simp_all)

lemma js_sub_lt0:
  assumes "dbl a" "dbl b" "a \<noteq> NaN" "b \<noteq> NaN"
  shows "js_lt0 (js_sub a b) \<longleftrightarrow> \<not> js_le b a"
proof (cases a; cases b)
  fix x y assume ab: "a = Fin x" "b = Fin y"
  then have d: "is_double x" "is_double y" using assms by simp_all
  consider "x = y" | "y < x" | "x < y" by linarith
  then show ?thesis
  proof cases
    case 1 then show ?thesis using ab by (simp add: round_double_def)
  next
    case 2
    from is_double_diff_ge[OF d 2] have "\<not> js_lt0 (round_double (x - y))"
      by (rule round_double_sign_pos)
    then show ?thesis using ab 2 by simp
  next
    case 3
    from is_double_diff_ge[OF d(2) d(1) 3] have "power_int 2 (- 1074) \<le> - (x - y)" by simp
    then have "js_lt0 (round_double (x - y))" by (rule round_double_sign_neg)
    then show ?thesis using ab 3 by simp
  qed
qed (use assms in simp_all)

lemma round_mag_exact:
  assumes "0 < n" "n < 2 ^ 53" "- 1074 \<le> k"
  shows "round_mag (of_int n * power_int 2 k) = of_int n * power_int 2 k"
proof -
  define a :: rat where "a = of_int n * power_int 2 k"
  define e where "e = max (ilog2 a) (- 1022)"
  have apos: "0 < a" using assms(1) pow2_pos[of k] by (simp add: a_def)
  have "(of_int n :: rat) < of_int (2 ^ 53)" using assms(2) by (simp only: of_int_less_iff)
  then have "a < 2 ^ 53 * power_int 2 k" using pow2_pos[of k] by (simp add: a_def)
  also have "\<dots> = power_int 2 (53 + k)"
    by (simp add: power_int_add)
  finally have "power_int 2 (ilog2 a) < power_int (2::rat) (53 + k)"
    using ilog2_lower[OF apos] by linarith
  then have "ilog2 a < 53 + k" using pow2_mono[of "53 + k" "ilog2 a"] by (cases "ilog2 a < 53 + k") simp_all
  then have ek: "e - 52 \<le> k" using assms(3) by (simp add: e_def)
  define d where "d = nat (k - (e - 52))"
  have "power_int (2::rat) k = power_int 2 (int d + (e - 52))" using ek by (simp add: d_def)
  also have "\<dots> = 2 ^ d * power_int 2 (e - 52)" by (simp add: power_int_add)
  finally have k: "power_int (2::rat) k = 2 ^ d * power_int 2 (e - 52)" .
  have q0: "power_int (2::rat) (e - 52) \<noteq> 0" using pow2_pos[of "e - 52"] by simp
  have "a / power_int 2 (e - 52) = of_int (n * 2 ^ d)" using q0 by (simp add: a_def k)
  then have "round_half_even (a / power_int 2 (e - 52)) = n * 2 ^ d"
    by (simp only: round_half_even_of_int)
  then have "round_mag a = of_int (n * 2 ^ d) * power_int 2 (e - 52)"
    by (simp add: round_mag_def Let_def e_def)
  also have "\<dots> = a" by (simp add: a_def k)
  finally show ?thesis by (simp add: a_def)
qed

lemma dbl_overflow_gt: "2 ^ 1023 < dbl_overflow"
  by (simp add: dbl_overflow_def)

lemma round_double_int:
  assumes "\<bar>n\<bar> < 2 ^ 53"
  shows "round_double (of_int n) = Fin (of_int n)"
proof (cases "n = 0")
  case True then show ?thesis by (simp add: round_double_def)
next
  case False
  have "(of_int \<bar>n\<bar> :: rat) < of_int (2 ^ 53)" using assms by (simp only: of_int_less_iff)
  then have "\<bar>of_int n :: rat\<bar> < 2 ^ 53" by simp
  also have "(2::rat) ^ 53 < 2 ^ 1023" by simp
  finally have small: "\<not> dbl_overflow \<le> \<bar>of_int n :: rat\<bar>" using dbl_overflow_gt by linarith
  have "round_mag (of_int \<bar>n\<bar> * power_int 2 0) = of_int \<bar>n\<bar> * power_int 2 0"
    using False assms by (intro round_mag_exact) simp_all
  then have "round_mag \<bar>of_int n\<bar> = \<bar>of_int n\<bar>" by simp
  then show ?thesis using False small by (simp add: round_double_def mult_sgn_abs)
qed

lemma round_double_numeral:
  "numeral w < (2 ^ 53 :: int) \<Longrightarrow> round_double (numeral w) = Fin (numeral w)"
  using round_double_int[of "numeral w"] by simp

lemma round_double_quarter: "round_double (1 / 4) = Fin (1 / 4)"
proof -
  have "round_mag (of_int 1 * power_int 2 (- 2)) = of_int 1 * power_int 2 (- 2)"
    by (intro round_mag_exact) simp_all
  moreover have "power_int (2::rat) (- 2) = 1 / 4" by (simp add: power_int_def power2_eq_square)
  ultimately have "round_mag (1 / 4) = 1 / 4" by simp
  then show ?thesis by (simp add: round_double_def dbl_overflow_def)
qed

section \<open>The insertion sort\<close>

lemma mset_ins: "mset (ins le x ys) = add_mset x (mset ys)"
  by (induction ys) simp_all

lemma mset_isort: "mset (isort le xs) = mset xs"
  by (induction xs) (simp_all add: mset_ins)

lemma set_ins: "set (ins le x ys) = insert x (set ys)"
  by (induction ys) auto

lemma set_isort: "set (isort le xs) = set xs"
  by (induction xs) (simp_all add: set_ins)

lemma sorted_ins:
  assumes tot: "\<forall>a\<in>S. \<forall>b\<in>S. le a b \<or> le b a"
    and trans: "\<forall>a\<in>S. \<forall>b\<in>S. \<forall>c\<in>S. le a b \<longrightarrow> le b c \<longrightarrow> le a c"
    and xS: "x \<in> S"
  shows "set ys \<subseteq> S \<Longrightarrow> sorted_wrt le ys \<Longrightarrow> sorted_wrt le (ins le x ys)"
proof (induction ys)
  case Nil
  then show ?case by simp
next
  case (Cons y ys)
  have yS: "y \<in> S" and ysS: "set ys \<subseteq> S"
    using Cons.prems(1) by simp_all
  have sy: "\<forall>z\<in>set ys. le y z" and sys: "sorted_wrt le ys"
    using Cons.prems(2) by simp_all
  show ?case
  proof (cases "le x y")
    case True
    have "\<forall>z\<in>set ys. le x z"
    proof
      fix z assume z: "z \<in> set ys"
      then have "le y z" using sy by blast
      moreover have "z \<in> S" using z ysS by blast
      ultimately show "le x z" using trans xS yS True by blast
    qed
    then show ?thesis using True sy sys by simp
  next
    case False
    then have yx: "le y x" using tot xS yS by blast
    have "sorted_wrt le (ins le x ys)" using Cons.IH[OF ysS sys] .
    moreover have "\<forall>z\<in>set (ins le x ys). le y z"
      using yx sy by (simp add: set_ins)
    ultimately show ?thesis using False by simp
  qed
qed

lemma sorted_isort:
  assumes tot: "\<forall>a\<in>S. \<forall>b\<in>S. le a b \<or> le b a"
    and trans: "\<forall>a\<in>S. \<forall>b\<in>S. \<forall>c\<in>S. le a b \<longrightarrow> le b c \<longrightarrow> le a c"
  shows "set xs \<subseteq> S \<Longrightarrow> sorted_wrt le (isort le xs)"
proof (induction xs)
  case Nil
  then show ?case by simp
next
  case (Cons x xs)
  have xS: "x \<in> S" and xsS: "set (isort le xs) \<subseteq> S"
    using Cons.prems by (simp_all add: set_isort)
  have "sorted_wrt le (isort le xs)" using Cons by simp
  then have "sorted_wrt le (ins le x (isort le xs))"
    using sorted_ins[OF tot trans xS xsS] by blast
  then show ?case by simp
qed

lemma filter_ins_in:
  "P x \<Longrightarrow> \<forall>y\<in>set ys. P y \<longrightarrow> le x y \<Longrightarrow> filter P (ins le x ys) = x # filter P ys"
  by (induction ys) auto

lemma filter_ins_out: "\<not> P x \<Longrightarrow> filter P (ins le x ys) = filter P ys"
  by (induction ys) auto

lemma filter_isort:
  "\<forall>x\<in>set xs. \<forall>y\<in>set xs. P x \<and> P y \<longrightarrow> le x y \<Longrightarrow> filter P (isort le xs) = filter P xs"
proof (induction xs)
  case Nil
  then show ?case by simp
next
  case (Cons x xs)
  have ih: "filter P (isort le xs) = filter P xs" using Cons by simp
  show ?case
  proof (cases "P x")
    case True
    have "\<forall>y\<in>set (isort le xs). P y \<longrightarrow> le x y" using Cons.prems True by (simp add: set_isort)
    then show ?thesis using True ih by (simp add: filter_ins_in)
  next
    case False
    then show ?thesis using ih by (simp add: filter_ins_out)
  qed
qed

lemma sort_insert_pure:
  "\<forall>y\<in>set ys. \<exists>v. cmp x y = Inr v \<and> (js_gt0 v \<longleftrightarrow> \<not> le x y)
     \<Longrightarrow> sort_insert cmp x ys = Inr (ins le x ys)"
proof (induction ys)
  case Nil
  then show ?case by simp
next
  case (Cons y ys)
  obtain v where v: "cmp x y = Inr v" "js_gt0 v \<longleftrightarrow> \<not> le x y" using Cons.prems by auto
  have "sort_insert cmp x ys = Inr (ins le x ys)" using Cons by simp
  then show ?case using v by simp
qed

lemma insertion_sort_pure:
  "\<forall>a\<in>set xs. \<forall>b\<in>set xs. \<exists>v. cmp a b = Inr v \<and> (js_gt0 v \<longleftrightarrow> \<not> le a b)
     \<Longrightarrow> insertion_sort cmp xs = Inr (isort le xs)"
proof (induction xs)
  case Nil
  then show ?case by simp
next
  case (Cons x xs)
  have "insertion_sort cmp xs = Inr (isort le xs)" using Cons by simp
  moreover have "sort_insert cmp x (isort le xs) = Inr (ins le x (isort le xs))"
    using Cons.prems by (intro sort_insert_pure) (simp add: set_isort)
  ultimately show ?case by simp
qed

lemma js_sign_range: "js_sign v = - 1 \<or> js_sign v = 0 \<or> js_sign v = 1"
  by (simp add: js_sign_def)

lemma js_lt0_not_gt0: "js_lt0 v \<Longrightarrow> \<not> js_gt0 v"
  by (cases v) simp_all

lemma js_sign_gt0: "js_sign v = 1 \<longleftrightarrow> js_gt0 v"
  using js_lt0_not_gt0[of v] by (auto simp: js_sign_def)

lemma js_sign_lt0: "js_sign v = - 1 \<longleftrightarrow> js_lt0 v"
  by (simp add: js_sign_def)

text \<open>Signs that are opposite on swapped pairs and transitive give a total preorder.\<close>

lemma sign_total:
  fixes sg :: "'a \<Rightarrow> 'a \<Rightarrow> int"
  assumes "sg b a = - sg a b"
  shows "sg a b \<noteq> 1 \<or> sg b a \<noteq> 1"
  using assms by linarith

lemma sign_trans:
  fixes sg :: "'a \<Rightarrow> 'a \<Rightarrow> int"
  assumes anti: "\<forall>a\<in>S. \<forall>b\<in>S. sg b a = - sg a b"
    and rng: "\<forall>a\<in>S. \<forall>b\<in>S. sg a b = - 1 \<or> sg a b = 0 \<or> sg a b = 1"
    and t0: "\<forall>a\<in>S. \<forall>b\<in>S. \<forall>c\<in>S. sg a b = 0 \<and> sg b c = 0 \<longrightarrow> sg a c = 0"
    and t1: "\<forall>a\<in>S. \<forall>b\<in>S. \<forall>c\<in>S. sg a b = - 1 \<and> sg b c = - 1 \<longrightarrow> sg a c = - 1"
    and S: "a \<in> S" "b \<in> S" "c \<in> S"
    and ab: "sg a b \<noteq> 1" and bc: "sg b c \<noteq> 1"
  shows "sg a c \<noteq> 1"
proof
  assume ac: "sg a c = 1"
  have sw_ac: "sg c a = - sg a c" using anti S by blast
  have sw_ab: "sg b a = - sg a b" using anti S by blast
  have sw_bc: "sg c b = - sg b c" using anti S by blast
  have ca: "sg c a = - 1" using sw_ac ac by linarith
  have ab': "sg a b = - 1 \<or> sg a b = 0" using rng S ab by blast
  have bc': "sg b c = - 1 \<or> sg b c = 0" using rng S bc by blast
  show False
  proof (cases "sg a b = 0")
    case True
    show False
    proof (cases "sg b c = 0")
      case True
      with \<open>sg a b = 0\<close> have "sg a c = 0" using t0 S by blast
      with ac show False by linarith
    next
      case False
      then have "sg b c = - 1" using bc' by blast
      with ca have "sg b a = - 1" using t1 S by blast
      with sw_ab True show False by linarith
    qed
  next
    case False
    then have ab1: "sg a b = - 1" using ab' by blast
    show False
    proof (cases "sg b c = 0")
      case True
      from ca ab1 have "sg c b = - 1" using t1 S by blast
      with sw_bc True show False by linarith
    next
      case False
      then have "sg b c = - 1" using bc' by blast
      with ab1 have "sg a c = - 1" using t1 S by blast
      with ac show False by linarith
    qed
  qed
qed

lemma consistent_on_sign:
  assumes "consistent_on cmp xs" "a \<in> set xs" "b \<in> set xs"
  shows "sort_compare cmp a b = Some (sign_of cmp a b)"
    and "sign_of cmp b a = - sign_of cmp a b"
    and "\<exists>v. cmp a b = Inr v \<and> js_sign v = sign_of cmp a b"
proof -
  have ne: "sort_compare cmp a b \<noteq> None"
    and sw: "sort_compare cmp b a = map_option uminus (sort_compare cmp a b)"
    using assms unfolding consistent_on_def by blast+
  then obtain s where s: "sort_compare cmp a b = Some s" by blast
  show 1: "sort_compare cmp a b = Some (sign_of cmp a b)" by (simp add: sign_of_def s)
  show "sign_of cmp b a = - sign_of cmp a b" by (simp add: sign_of_def s sw)
  show "\<exists>v. cmp a b = Inr v \<and> js_sign v = sign_of cmp a b"
    using s by (auto simp: sort_compare_def sign_of_def split: sum.splits)
qed

lemma consistent_on_order:
  assumes c: "consistent_on cmp xs"
  shows "\<forall>a\<in>set xs. \<forall>b\<in>set xs. \<exists>v. cmp a b = Inr v \<and> (js_gt0 v \<longleftrightarrow> \<not> not_after cmp a b)"
    and "\<forall>a\<in>set xs. \<forall>b\<in>set xs. not_after cmp a b \<or> not_after cmp b a"
    and "\<forall>a\<in>set xs. \<forall>b\<in>set xs. \<forall>d\<in>set xs.
           not_after cmp a b \<longrightarrow> not_after cmp b d \<longrightarrow> not_after cmp a d"
proof -
  have na: "\<And>a b. a \<in> set xs \<Longrightarrow> b \<in> set xs \<Longrightarrow> not_after cmp a b \<longleftrightarrow> sign_of cmp a b \<noteq> 1"
    using consistent_on_sign(1)[OF c] by (simp add: not_after_def)
  show "\<forall>a\<in>set xs. \<forall>b\<in>set xs. \<exists>v. cmp a b = Inr v \<and> (js_gt0 v \<longleftrightarrow> \<not> not_after cmp a b)"
  proof (intro ballI)
    fix a b assume ab: "a \<in> set xs" "b \<in> set xs"
    from consistent_on_sign(3)[OF c ab] obtain v where v: "cmp a b = Inr v" "js_sign v = sign_of cmp a b"
      by blast
    then have "js_gt0 v \<longleftrightarrow> \<not> not_after cmp a b" using na[OF ab] js_sign_gt0[of v] by simp
    with v show "\<exists>v. cmp a b = Inr v \<and> (js_gt0 v \<longleftrightarrow> \<not> not_after cmp a b)" by blast
  qed
  have anti: "\<forall>a\<in>set xs. \<forall>b\<in>set xs. sign_of cmp b a = - sign_of cmp a b"
    using consistent_on_sign(2)[OF c] by blast
  have rng: "\<forall>a\<in>set xs. \<forall>b\<in>set xs. sign_of cmp a b = - 1 \<or> sign_of cmp a b = 0 \<or> sign_of cmp a b = 1"
  proof (intro ballI)
    fix a b assume ab: "a \<in> set xs" "b \<in> set xs"
    from consistent_on_sign(3)[OF c ab] obtain v where "js_sign v = sign_of cmp a b" by blast
    then show "sign_of cmp a b = - 1 \<or> sign_of cmp a b = 0 \<or> sign_of cmp a b = 1"
      using js_sign_range[of v] by simp
  qed
  have t0: "\<forall>a\<in>set xs. \<forall>b\<in>set xs. \<forall>d\<in>set xs.
              sign_of cmp a b = 0 \<and> sign_of cmp b d = 0 \<longrightarrow> sign_of cmp a d = 0"
  proof (intro ballI impI)
    fix a b d assume m: "a \<in> set xs" "b \<in> set xs" "d \<in> set xs"
      and z: "sign_of cmp a b = 0 \<and> sign_of cmp b d = 0"
    have "sort_compare cmp a b = Some 0" "sort_compare cmp b d = Some 0"
      using consistent_on_sign(1)[OF c] m z by simp_all
    then have "sort_compare cmp a d = Some 0" using c m unfolding consistent_on_def by blast
    then show "sign_of cmp a d = 0" by (simp add: sign_of_def)
  qed
  have t1: "\<forall>a\<in>set xs. \<forall>b\<in>set xs. \<forall>d\<in>set xs.
              sign_of cmp a b = - 1 \<and> sign_of cmp b d = - 1 \<longrightarrow> sign_of cmp a d = - 1"
  proof (intro ballI impI)
    fix a b d assume m: "a \<in> set xs" "b \<in> set xs" "d \<in> set xs"
      and z: "sign_of cmp a b = - 1 \<and> sign_of cmp b d = - 1"
    have "sort_compare cmp a b = Some (- 1)" "sort_compare cmp b d = Some (- 1)"
      using consistent_on_sign(1)[OF c] m z by simp_all
    then have "sort_compare cmp a d = Some (- 1)" using c m unfolding consistent_on_def by blast
    then show "sign_of cmp a d = - 1" by (simp add: sign_of_def)
  qed
  show "\<forall>a\<in>set xs. \<forall>b\<in>set xs. not_after cmp a b \<or> not_after cmp b a"
  proof (intro ballI)
    fix a b assume ab: "a \<in> set xs" "b \<in> set xs"
    have "sign_of cmp b a = - sign_of cmp a b" using anti ab by blast
    then have "sign_of cmp a b \<noteq> 1 \<or> sign_of cmp b a \<noteq> 1" by (rule sign_total)
    then show "not_after cmp a b \<or> not_after cmp b a" using na ab by simp
  qed
  show "\<forall>a\<in>set xs. \<forall>b\<in>set xs. \<forall>d\<in>set xs.
           not_after cmp a b \<longrightarrow> not_after cmp b d \<longrightarrow> not_after cmp a d"
  proof (intro ballI impI)
    fix a b d assume m: "a \<in> set xs" "b \<in> set xs" "d \<in> set xs"
      and ab: "not_after cmp a b" and bd: "not_after cmp b d"
    have "sign_of cmp a b \<noteq> 1" "sign_of cmp b d \<noteq> 1" using ab bd na m by simp_all
    then have "sign_of cmp a d \<noteq> 1"
      using sign_trans[of "set xs" "sign_of cmp" a b d, OF anti rng t0 t1 m] by blast
    then show "not_after cmp a d" using na m by simp
  qed
qed

lemma array_sort_consistent:
  assumes c: "consistent_on cmp xs"
  shows "\<exists>ys. array_sort eng cmp xs = Inr ys \<and> sorted_wrt (not_after cmp) ys \<and> mset ys = mset xs
            \<and> (\<forall>P. (\<forall>x\<in>set xs. \<forall>y\<in>set xs. P x \<and> P y \<longrightarrow> not_after cmp x y)
                      \<longrightarrow> filter P ys = filter P xs)"
proof -
  note o = consistent_on_order[OF c]
  have "insertion_sort cmp xs = Inr (isort (not_after cmp) xs)"
    using o(1) by (rule insertion_sort_pure)
  then have "array_sort eng cmp xs = Inr (isort (not_after cmp) xs)"
    using c by (simp add: array_sort_def)
  moreover have "sorted_wrt (not_after cmp) (isort (not_after cmp) xs)"
    using sorted_isort[OF o(2) o(3)] by blast
  moreover have "mset (isort (not_after cmp) xs) = mset xs" by (rule mset_isort)
  moreover have "\<forall>P. (\<forall>x\<in>set xs. \<forall>y\<in>set xs. P x \<and> P y \<longrightarrow> not_after cmp x y)
                      \<longrightarrow> filter P (isort (not_after cmp) xs) = filter P xs"
    by (intro allI impI filter_isort)
  ultimately show ?thesis by (intro exI[of _ "isort (not_after cmp) xs"] conjI)
qed

lemma js_le_total: "a \<noteq> NaN \<Longrightarrow> b \<noteq> NaN \<Longrightarrow> js_le a b \<or> js_le b a"
  by (cases a; cases b) (simp_all add: linear)

lemma js_le_trans: "js_le a b \<Longrightarrow> js_le b c \<Longrightarrow> js_le a c"
  by (cases a; cases b; cases c) simp_all

lemma js_le_refl: "a \<noteq> NaN \<Longrightarrow> js_le a a"
  by (cases a) auto

lemma js_le_antisym: "js_le a b \<Longrightarrow> js_le b a \<Longrightarrow> a = b"
  by (cases a; cases b) simp_all

lemma js_sign_sub:
  assumes "dbl a" "dbl b" "a \<noteq> NaN" "b \<noteq> NaN"
  shows "js_sign (js_sub a b) = key_sign a b"
proof -
  have g: "js_gt0 (js_sub a b) \<longleftrightarrow> \<not> js_le a b" using assms by (rule js_sub_gt0)
  have l: "js_lt0 (js_sub a b) \<longleftrightarrow> \<not> js_le b a" using assms by (rule js_sub_lt0)
  show ?thesis
  proof (cases "a = b")
    case True
    then have "js_le a b" "js_le b a" using assms(3) js_le_refl by simp_all
    then show ?thesis using g l True by (simp add: js_sign_def key_sign_def)
  next
    case False
    show ?thesis
    proof (cases "js_le a b")
      case True
      then have "\<not> js_le b a" using False js_le_antisym by blast
      then show ?thesis using g l True False by (simp add: js_sign_def key_sign_def)
    next
      case nle: False
      then have "js_le b a" using js_le_total[OF assms(3,4)] by blast
      then show ?thesis using g l nle False by (simp add: js_sign_def key_sign_def)
    qed
  qed
qed

lemma key_sign_anti: "a \<noteq> NaN \<Longrightarrow> b \<noteq> NaN \<Longrightarrow> key_sign b a = - key_sign a b"
  using js_le_total[of a b] js_le_antisym[of a b] by (auto simp: key_sign_def)

lemma key_sign_zero: "key_sign a b = 0 \<longleftrightarrow> a = b"
  by (simp add: key_sign_def)

lemma key_sign_less: "key_sign a b = - 1 \<longleftrightarrow> a \<noteq> b \<and> js_le a b"
  by (simp add: key_sign_def)

lemma key_sign_trans:
  "key_sign a b = - 1 \<Longrightarrow> key_sign b c = - 1 \<Longrightarrow> key_sign a c = - 1"
  unfolding key_sign_less using js_le_trans[of a b c] js_le_antisym[of a b] by blast

lemma key_sign_not_after: "a \<noteq> NaN \<Longrightarrow> key_sign a b \<noteq> 1 \<longleftrightarrow> js_le a b"
  using js_le_refl[of a] by (auto simp: key_sign_def)

lemma consistent_on_signfun:
  assumes sg: "\<forall>a\<in>set xs. \<forall>b\<in>set xs. sort_compare cmp a b = Some (sg a b)"
    and anti: "\<forall>a\<in>set xs. \<forall>b\<in>set xs. sg b a = - sg a b"
    and t0: "\<forall>a\<in>set xs. \<forall>b\<in>set xs. \<forall>c\<in>set xs. sg a b = 0 \<and> sg b c = 0 \<longrightarrow> sg a c = 0"
    and t1: "\<forall>a\<in>set xs. \<forall>b\<in>set xs. \<forall>c\<in>set xs.
               sg a b = - 1 \<and> sg b c = - 1 \<longrightarrow> sg a c = - 1"
  shows "consistent_on cmp xs"
  unfolding consistent_on_def
proof (intro conjI ballI impI)
  fix a b assume m: "a \<in> set xs" "b \<in> set xs"
  show "sort_compare cmp a b \<noteq> None" using sg m by simp
  have "sort_compare cmp b a = Some (sg b a)" using sg m by blast
  also have "sg b a = - sg a b" using anti m by blast
  finally show "sort_compare cmp b a = map_option uminus (sort_compare cmp a b)"
    using sg m by simp
next
  fix a b c assume m: "a \<in> set xs" "b \<in> set xs" "c \<in> set xs"
    and z: "sort_compare cmp a b = Some 0 \<and> sort_compare cmp b c = Some 0"
  have "sg a b = 0" "sg b c = 0" using z sg m by simp_all
  then have "sg a c = 0" using t0 m by blast
  then show "sort_compare cmp a c = Some 0" using sg m by simp
next
  fix a b c assume m: "a \<in> set xs" "b \<in> set xs" "c \<in> set xs"
    and z: "sort_compare cmp a b = Some (- 1) \<and> sort_compare cmp b c = Some (- 1)"
  have "sg a b = - 1" "sg b c = - 1" using z sg m by simp_all
  then have "sg a c = - 1" using t1 m by blast
  then show "sort_compare cmp a c = Some (- 1)" using sg m by simp
qed

lemma consistent_on_key:
  assumes keys: "\<forall>x\<in>set xs. dbl (key x) \<and> key x \<noteq> NaN"
    and cmp: "\<forall>a\<in>set xs. \<forall>b\<in>set xs. cmp a b = Inr (js_sub (key a) (key b))"
  shows "consistent_on cmp xs"
    and "\<forall>a\<in>set xs. \<forall>b\<in>set xs. not_after cmp a b \<longleftrightarrow> js_le (key a) (key b)"
proof -
  have k: "\<And>x. x \<in> set xs \<Longrightarrow> dbl (key x)" "\<And>x. x \<in> set xs \<Longrightarrow> key x \<noteq> NaN"
    using keys by blast+
  have sg: "\<forall>a\<in>set xs. \<forall>b\<in>set xs. sort_compare cmp a b = Some (key_sign (key a) (key b))"
  proof (intro ballI)
    fix a b assume m: "a \<in> set xs" "b \<in> set xs"
    have "cmp a b = Inr (js_sub (key a) (key b))" using cmp m by blast
    then show "sort_compare cmp a b = Some (key_sign (key a) (key b))"
      using k m by (simp add: sort_compare_def js_sign_sub)
  qed
  show "consistent_on cmp xs"
  proof (rule consistent_on_signfun[OF sg])
    show "\<forall>a\<in>set xs. \<forall>b\<in>set xs. key_sign (key b) (key a) = - key_sign (key a) (key b)"
      using k by (intro ballI key_sign_anti)
    show "\<forall>a\<in>set xs. \<forall>b\<in>set xs. \<forall>c\<in>set xs.
            key_sign (key a) (key b) = 0 \<and> key_sign (key b) (key c) = 0
              \<longrightarrow> key_sign (key a) (key c) = 0"
      by (simp add: key_sign_zero)
    show "\<forall>a\<in>set xs. \<forall>b\<in>set xs. \<forall>c\<in>set xs.
            key_sign (key a) (key b) = - 1 \<and> key_sign (key b) (key c) = - 1
              \<longrightarrow> key_sign (key a) (key c) = - 1"
    proof (intro ballI impI)
      fix a b c
      assume "key_sign (key a) (key b) = - 1 \<and> key_sign (key b) (key c) = - 1"
      then show "key_sign (key a) (key c) = - 1" using key_sign_trans by blast
    qed
  qed
  show "\<forall>a\<in>set xs. \<forall>b\<in>set xs. not_after cmp a b \<longleftrightarrow> js_le (key a) (key b)"
  proof (intro ballI)
    fix a b assume m: "a \<in> set xs" "b \<in> set xs"
    have "sort_compare cmp a b = Some (key_sign (key a) (key b))" using sg m by blast
    then show "not_after cmp a b \<longleftrightarrow> js_le (key a) (key b)"
      using k m by (simp add: not_after_def key_sign_not_after)
  qed
qed

lemma consistent_on_key_desc:
  assumes keys: "\<forall>x\<in>set xs. dbl (key x) \<and> key x \<noteq> NaN"
    and cmp: "\<forall>a\<in>set xs. \<forall>b\<in>set xs. cmp a b = Inr (js_sub (key b) (key a))"
  shows "consistent_on cmp xs"
    and "\<forall>a\<in>set xs. \<forall>b\<in>set xs. not_after cmp a b \<longleftrightarrow> js_le (key b) (key a)"
proof -
  have k: "\<And>x. x \<in> set xs \<Longrightarrow> dbl (key x)" "\<And>x. x \<in> set xs \<Longrightarrow> key x \<noteq> NaN"
    using keys by blast+
  have sg: "\<forall>a\<in>set xs. \<forall>b\<in>set xs. sort_compare cmp a b = Some (key_sign (key b) (key a))"
  proof (intro ballI)
    fix a b assume m: "a \<in> set xs" "b \<in> set xs"
    have "cmp a b = Inr (js_sub (key b) (key a))" using cmp m by blast
    then show "sort_compare cmp a b = Some (key_sign (key b) (key a))"
      using k m by (simp add: sort_compare_def js_sign_sub)
  qed
  show "consistent_on cmp xs"
  proof (rule consistent_on_signfun[OF sg])
    show "\<forall>a\<in>set xs. \<forall>b\<in>set xs. key_sign (key a) (key b) = - key_sign (key b) (key a)"
      using k by (intro ballI key_sign_anti)
    show "\<forall>a\<in>set xs. \<forall>b\<in>set xs. \<forall>c\<in>set xs.
            key_sign (key b) (key a) = 0 \<and> key_sign (key c) (key b) = 0
              \<longrightarrow> key_sign (key c) (key a) = 0"
      by (simp add: key_sign_zero)
    show "\<forall>a\<in>set xs. \<forall>b\<in>set xs. \<forall>c\<in>set xs.
            key_sign (key b) (key a) = - 1 \<and> key_sign (key c) (key b) = - 1
              \<longrightarrow> key_sign (key c) (key a) = - 1"
    proof (intro ballI impI)
      fix a b c
      assume "key_sign (key b) (key a) = - 1 \<and> key_sign (key c) (key b) = - 1"
      then show "key_sign (key c) (key a) = - 1" using key_sign_trans by blast
    qed
  qed
  show "\<forall>a\<in>set xs. \<forall>b\<in>set xs. not_after cmp a b \<longleftrightarrow> js_le (key b) (key a)"
  proof (intro ballI)
    fix a b assume m: "a \<in> set xs" "b \<in> set xs"
    have "sort_compare cmp a b = Some (key_sign (key b) (key a))" using sg m by blast
    then show "not_after cmp a b \<longleftrightarrow> js_le (key b) (key a)"
      using k m by (simp add: not_after_def key_sign_not_after)
  qed
qed

lemma sorted_wrt_cong_set:
  "\<forall>a\<in>set ys. \<forall>b\<in>set ys. P a b \<longrightarrow> Q a b \<Longrightarrow> sorted_wrt P ys \<Longrightarrow> sorted_wrt Q ys"
proof -
  assume pq: "\<forall>a\<in>set ys. \<forall>b\<in>set ys. P a b \<longrightarrow> Q a b" and s: "sorted_wrt P ys"
  show "sorted_wrt Q ys"
  proof (rule sorted_wrt_mono_rel[OF _ s])
    fix x y assume "x \<in> set ys" "y \<in> set ys" "P x y"
    then show "Q x y" using pq by blast
  qed
qed

lemma trim_no_space: "\<forall>c\<in>set s. \<not> is_space c \<Longrightarrow> trim s = s"
proof -
  assume a: "\<forall>c\<in>set s. \<not> is_space c"
  have "dropWhile is_space s = s" using a by (cases s) simp_all
  moreover have "dropWhile is_space (rev s) = rev s" using a by (cases "rev s") (simp, metis dropWhile.simps(2) list.set_intros(1) set_rev)
  ultimately show ?thesis by (simp add: trim_def)
qed

lemma keep_numeric_chars: "c \<in> set (keep_numeric s) \<Longrightarrow> is_digit c \<or> c = CHR ''.'' \<or> c = CHR '',''"
  by (simp add: keep_numeric_def)

lemma numeric_not_space: "is_digit c \<or> c = CHR ''.'' \<or> c = CHR '','' \<Longrightarrow> \<not> is_space c"
  by (auto simp: is_digit_def is_space_def)

lemma trim_keep_numeric: "trim (keep_numeric s) = keep_numeric s"
  by (rule trim_no_space) (use keep_numeric_chars numeric_not_space in blast)

lemma cleanAndParseValue_eq:
  "cleanAndParseValue v =
     (case v of
        None \<Rightarrow> Fin 0
      | Some s \<Rightarrow> if s = [] then Fin 0
                  else nan_to_zero (parseFloat (normalise_separators (keep_numeric s))))"
  by (simp add: cleanAndParseValue_def Let_def nan_to_zero_def normalise_separators_def
      trim_keep_numeric[unfolded keep_numeric_def] keep_numeric_def split: option.splits)

lemma nan_to_zero_not_NaN: "nan_to_zero p \<noteq> NaN"
  by (cases p) (simp_all add: nan_to_zero_def)

lemma dbl_nan_to_zero: "dbl p \<Longrightarrow> dbl (nan_to_zero p)"
  by (cases p) (simp_all add: is_double_0 nan_to_zero_def)

lemma dbl_parseFloat: "dbl (parseFloat s)"
  by (simp add: parseFloat_def Let_def round_double_dbl split: literal.splits prod.splits)

lemma dbl_js_sub: "dbl (js_sub a b)"
  by (cases a; cases b) (simp_all add: round_double_dbl)

lemma cleanAndParseValue_not_NaN: "cleanAndParseValue v \<noteq> NaN"
  by (simp add: cleanAndParseValue_eq nan_to_zero_not_NaN split: option.splits)

lemma cleanAndParseValue_dbl: "dbl (cleanAndParseValue v)"
  by (simp add: cleanAndParseValue_eq dbl_nan_to_zero dbl_parseFloat is_double_0 split: option.splits)

lemma calculateDesconto_eq:
  "calculateDesconto x =
     js_sub (cleanAndParseValue (Some (or_else (preco_publico x) ''R$ 0,00'')))
            (cleanAndParseValue (Some (or_else (preco_pcd x) ''R$ 0,00'')))"
  by (simp add: calculateDesconto_def Let_def typeof_number_def)

lemma calculateDesconto_dbl: "dbl (calculateDesconto x)"
  by (simp add: calculateDesconto_eq dbl_js_sub)

lemma imoveis_valor_Inr:
  "imoveis_valor x \<noteq> NaN \<Longrightarrow> imoveis_cleanAndParseValue (valor x) = Inr (imoveis_valor x)"
  by (simp add: imoveis_valor_def split: sum.splits)

lemma imoveis_valor_dbl: "dbl (imoveis_valor x)"
  by (simp add: imoveis_valor_def imoveis_cleanAndParseValue_def Let_def dbl_parseFloat
      split: sum.splits option.splits)

lemma round_double_not_NaN: "\<not> isNaN (round_double r)"
  by (simp add: round_double_def)

lemma round_double_0: "round_double 0 = Fin 0"
  by (simp add: round_double_def)

lemma round_double_1: "round_double 1 = Fin 1"
  using round_double_int[of 1] by simp

lemmas parse_eval = cleanAndParseValue_def trim_def is_digit_def is_space_def parseFloat_def
  parse_unsigned_def parse_exponent_def exponent_digits_def digits_value_def digit_val_def Let_def
  round_double_numeral round_double_not_NaN round_double_0 round_double_1

lemma parse_100: "cleanAndParseValue (Some ''R$ 100,00'') = Fin 100"
  by (simp add: parse_eval)

lemma parse_75: "cleanAndParseValue (Some ''R$ 75,00'') = Fin 75"
  by (simp add: parse_eval)

lemma desconto_fiat: "calculateDesconto carro_fiat = Fin 25"
  by (simp add: calculateDesconto_def carro_fiat_def or_else_def typeof_number_def parse_100 parse_75 round_double_numeral)

lemma floor_rat_numeral: "\<lfloor>numeral a / numeral b :: rat\<rfloor> = numeral a div numeral b"
  by (metis floor_divide_of_int_eq of_int_numeral)

lemma digits_of_numeral:
  "digits_of (numeral w) =
     (if numeral w < (10::nat) then [''0123456789'' ! numeral w]
      else digits_of (numeral w div 10) @ [''0123456789'' ! (numeral w mod 10)])"
  by (rule digits_of.simps)

lemma digits_of_2500: "digits_of 2500 = ''2500''"
  by (simp add: digits_of_numeral)

lemma toFixed2_25: "toFixed2 (Fin 25) = JStr ''25.00''"
  by (simp add: toFixed2_def digits_of_2500 Let_def floor_rat_numeral)

lemma pub_fiat: "cleanAndParseValue (Some (or_else (preco_publico carro_fiat) ''R$ 0,00'')) = Fin 100"
  by (simp add: carro_fiat_def or_else_def parse_100)

lemma calculateDescontoPercentage_string: "calculateDescontoPercentage carro_fiat = JStr ''25.00''"
  by (simp add: calculateDescontoPercentage_def desconto_fiat pub_fiat round_double_quarter round_double_numeral toFixed2_25 Let_def)

lemma imoveis_valor_examples:
  "imoveis_valor imovel_dois = Fin 2"
  "imoveis_valor imovel_um = Fin 1"
  "imoveis_valor imovel_consulta = NaN"
  "imoveis_valor carro_fiat = Fin 74350"
  "imoveis_valor carro_audi = Fin 50000"
  by (simp_all add: imoveis_valor_def imoveis_cleanAndParseValue_def imovel_dois_def imovel_um_def
      imovel_consulta_def carro_fiat_def carro_audi_def parse_eval)

lemma imoveis_parse_examples:
  "imoveis_cleanAndParseValue (valor imovel_dois) = Inr (Fin 2)"
  "imoveis_cleanAndParseValue (valor imovel_um) = Inr (Fin 1)"
  "imoveis_cleanAndParseValue (valor imovel_consulta) = Inr NaN"
  "imoveis_cleanAndParseValue (valor imovel_sem_valor) = Inl TypeError"
  by (simp_all add: imoveis_cleanAndParseValue_def imovel_dois_def imovel_um_def
      imovel_consulta_def imovel_sem_valor_def parse_eval)

lemma digits_value_snoc: "digits_value (ds @ [c]) = 10 * digits_value ds + digit_val c"
  by (simp add: digits_value_def)

lemma digits_value_nines_Suc: "Suc (digits_value (replicate n (CHR ''9''))) = 10 ^ n"
proof (induction n)
  case 0
  then show ?case by (simp add: digits_value_def)
next
  case (Suc n)
  have "digits_value (replicate (Suc n) (CHR ''9'')) = 10 * digits_value (replicate n (CHR ''9'')) + 9"
    unfolding replicate_Suc[of n] replicate_append_same[symmetric]
    by (simp add: digits_value_snoc digit_val_def)
  then show ?case using Suc by simp
qed

lemma digits_value_nines: "digits_value (replicate n (CHR ''9'')) = 10 ^ n - 1"
  using digits_value_nines_Suc[of n] by simp

lemma parse_unsigned_digits:
  assumes "s \<noteq> []" "\<forall>c\<in>set s. is_digit c"
  shows "parse_unsigned s = DecLit (of_nat (digits_value s))"
proof -
  have tw: "takeWhile is_digit s = s" and dw: "dropWhile is_digit s = []"
    using assms(2) by simp_all
  have ni: "\<not> prefix ''Infinity'' s"
  proof
    assume "prefix ''Infinity'' s"
    then obtain zs where "s = ''Infinity'' @ zs" by (rule prefixE)
    then have "CHR ''I'' \<in> set s" by simp
    then have "is_digit (CHR ''I'')" using assms(2) by blast
    then show False by (simp add: is_digit_def)
  qed
  show ?thesis unfolding parse_unsigned_def Let_def tw dw using ni assms(1) by simp
qed

lemma parseFloat_digits:
  assumes "s \<noteq> []" "\<forall>c\<in>set s. is_digit c"
  shows "parseFloat s = round_double (of_nat (digits_value s))"
proof -
  obtain c r where s: "s = c # r" using assms(1) by (cases s) auto
  have d: "is_digit c" using assms(2) s by simp
  then have "\<not> is_space c" "c \<noteq> CHR ''-''" "c \<noteq> CHR ''+''"
    by (auto simp: is_digit_def is_space_def)
  then show ?thesis using parse_unsigned_digits[OF assms] s
    by (simp add: parseFloat_def)
qed

lemma keep_numeric_digits: "\<forall>c\<in>set s. is_digit c \<Longrightarrow> keep_numeric s = s"
  by (simp add: keep_numeric_def)

lemma filter_eq_absent: "c \<notin> set s \<Longrightarrow> filter (\<lambda>x. x = c) s = []"
  by (induction s) auto

lemma normalise_digits: "\<forall>c\<in>set s. is_digit c \<Longrightarrow> normalise_separators s = s"
proof -
  assume a: "\<forall>c\<in>set s. is_digit c"
  have "CHR '','' \<notin> set s"
  proof
    assume "CHR '','' \<in> set s"
    then have "is_digit (CHR '','')" using a by blast
    then show False by (simp add: is_digit_def)
  qed
  then have "filter (\<lambda>c. c = CHR '','') s = []" by (rule filter_eq_absent)
  then show ?thesis by (simp add: normalise_separators_def)
qed

lemma cleanAndParseValue_digits:
  assumes "s \<noteq> []" "\<forall>c\<in>set s. is_digit c"
  shows "cleanAndParseValue (Some s) = round_double (of_nat (digits_value s))"
  using assms
  by (simp add: cleanAndParseValue_eq keep_numeric_digits normalise_digits parseFloat_digits
      nan_to_zero_def round_double_not_NaN)

lemma diff_le_self_rat: "(a::rat) - 2 ^ n \<le> a"
  by simp

lemma overflow_nines: "dbl_overflow \<le> of_nat (10 ^ 310 - 1)"
proof -
  have "(2::nat) ^ 1024 \<le> 10 ^ 310 - 1" by simp
  then have "(of_nat (2 ^ 1024) :: rat) \<le> of_nat (10 ^ 310 - 1)" by (simp only: of_nat_le_iff)
  moreover have "dbl_overflow \<le> of_nat (2 ^ 1024)"
    unfolding dbl_overflow_def of_nat_power of_nat_numeral by (rule diff_le_self_rat)
  ultimately show ?thesis by (rule order_trans[rotated])
qed

lemma huge_price_ne: "huge_price \<noteq> []"
  unfolding huge_price_def by (simp only: replicate_empty)

lemma huge_price_digits: "\<forall>c\<in>set huge_price. is_digit c"
proof
  fix c assume "c \<in> set huge_price"
  then have "c = CHR ''9''" unfolding huge_price_def by (simp only: in_set_replicate)
  then show "is_digit c" by (simp add: is_digit_def)
qed

lemma round_double_overflow: "0 < r \<Longrightarrow> dbl_overflow \<le> r \<Longrightarrow> round_double r = PInf"
  by (simp add: round_double_def)

lemma huge_price_PInf: "cleanAndParseValue (Some huge_price) = PInf"
proof -
  have "cleanAndParseValue (Some huge_price) = round_double (of_nat (digits_value huge_price))"
    using huge_price_ne huge_price_digits by (rule cleanAndParseValue_digits)
  also have "digits_value huge_price = 10 ^ 310 - 1"
    unfolding huge_price_def by (rule digits_value_nines)
  also have "round_double (of_nat (10 ^ 310 - 1)) = PInf"
  proof (rule round_double_overflow)
    show "dbl_overflow \<le> of_nat (10 ^ 310 - 1)" by (rule overflow_nines)
    have "(0::rat) < 2 ^ 1023" by (rule zero_less_power) simp
    then have "0 < dbl_overflow" using dbl_overflow_gt by (rule less_trans)
    then show "(0::rat) < of_nat (10 ^ 310 - 1)"
      using overflow_nines by (rule less_le_trans)
  qed
  finally show ?thesis .
qed

lemma calculateDesconto_examples:
  "calculateDesconto carro_fiat = Fin 25"
  "calculateDesconto carro_audi = Fin 30"
  "calculateDesconto carro_huge = NaN"
proof -
  show "calculateDesconto carro_fiat = Fin 25" by (rule desconto_fiat)
  show "calculateDesconto carro_audi = Fin 30"
    by (simp add: calculateDesconto_eq carro_audi_def or_else_def parse_eval)
  show "calculateDesconto carro_huge = NaN"
    by (simp add: calculateDesconto_eq carro_huge_def or_else_def huge_price_ne huge_price_PInf)
qed

lemma example_heap_simps: "length example_heap = 1" "example_heap ! 0 = [carro_fiat, carro_audi]"
  by (simp_all add: example_heap_def)

lemma array_sort_by_key:
  assumes keys: "\<forall>x\<in>set xs. dbl (key x) \<and> key x \<noteq> NaN"
    and cmp: "\<forall>a\<in>set xs. \<forall>b\<in>set xs. cmp a b = Inr (js_sub (key a) (key b))"
  shows "\<exists>ys. array_sort eng cmp xs = Inr ys
            \<and> sorted_wrt (\<lambda>a b. js_le (key a) (key b)) ys
            \<and> mset ys = mset xs
            \<and> (\<forall>k. filter (\<lambda>x. key x = k) ys = filter (\<lambda>x. key x = k) xs)"
proof -
  note c = consistent_on_key[OF keys cmp]
  from array_sort_consistent[OF c(1), of eng] obtain ys where ys: "array_sort eng cmp xs = Inr ys"
    and so: "sorted_wrt (not_after cmp) ys" and ms: "mset ys = mset xs"
    and st: "\<forall>P. (\<forall>x\<in>set xs. \<forall>y\<in>set xs. P x \<and> P y \<longrightarrow> not_after cmp x y)
                      \<longrightarrow> filter P ys = filter P xs" by blast
  have se: "set ys = set xs" using ms by (rule mset_eq_setD)
  have "\<forall>a\<in>set ys. \<forall>b\<in>set ys. not_after cmp a b \<longrightarrow> js_le (key a) (key b)"
    using c(2) se by simp
  then have so': "sorted_wrt (\<lambda>a b. js_le (key a) (key b)) ys" using so
    by (rule sorted_wrt_cong_set)
  have "\<forall>k. filter (\<lambda>x. key x = k) ys = filter (\<lambda>x. key x = k) xs"
  proof
    fix k
    have "\<forall>x\<in>set xs. \<forall>y\<in>set xs. key x = k \<and> key y = k \<longrightarrow> not_after cmp x y"
    proof (intro ballI impI)
      fix x y assume m: "x \<in> set xs" "y \<in> set xs" and e: "key x = k \<and> key y = k"
      have "key x \<noteq> NaN" using keys m by blast
      then have "js_le (key x) (key x)" by (rule js_le_refl)
      then have "js_le (key x) (key y)" using e by simp
      then show "not_after cmp x y" using c(2) m by blast
    qed
    with spec[OF st, of "\<lambda>x. key x = k"]
    show "filter (\<lambda>x. key x = k) ys = filter (\<lambda>x. key x = k) xs"
      by (rule mp)
  qed
  then show ?thesis using ys so' ms by (intro exI[of _ ys] conjI)
qed

lemma array_sort_by_key_desc:
  assumes keys: "\<forall>x\<in>set xs. dbl (key x) \<and> key x \<noteq> NaN"
    and cmp: "\<forall>a\<in>set xs. \<forall>b\<in>set xs. cmp a b = Inr (js_sub (key b) (key a))"
  shows "\<exists>ys. array_sort eng cmp xs = Inr ys
            \<and> sorted_wrt (\<lambda>a b. js_le (key b) (key a)) ys
            \<and> mset ys = mset xs
            \<and> (\<forall>k. filter (\<lambda>x. key x = k) ys = filter (\<lambda>x. key x = k) xs)"
proof -
  note c = consistent_on_key_desc[OF keys cmp]
  from array_sort_consistent[OF c(1), of eng] obtain ys where ys: "array_sort eng cmp xs = Inr ys"
    and so: "sorted_wrt (not_after cmp) ys" and ms: "mset ys = mset xs"
    and st: "\<forall>P. (\<forall>x\<in>set xs. \<forall>y\<in>set xs. P x \<and> P y \<longrightarrow> not_after cmp x y)
                      \<longrightarrow> filter P ys = filter P xs" by blast
  have se: "set ys = set xs" using ms by (rule mset_eq_setD)
  have "\<forall>a\<in>set ys. \<forall>b\<in>set ys. not_after cmp a b \<longrightarrow> js_le (key b) (key a)"
    using c(2) se by simp
  then have so': "sorted_wrt (\<lambda>a b. js_le (key b) (key a)) ys" using so
    by (rule sorted_wrt_cong_set)
  have "\<forall>k. filter (\<lambda>x. key x = k) ys = filter (\<lambda>x. key x = k) xs"
  proof
    fix k
    have "\<forall>x\<in>set xs. \<forall>y\<in>set xs. key x = k \<and> key y = k \<longrightarrow> not_after cmp x y"
    proof (intro ballI impI)
      fix x y assume m: "x \<in> set xs" "y \<in> set xs" and e: "key x = k \<and> key y = k"
      have "key x \<noteq> NaN" using keys m by blast
      then have "js_le (key x) (key x)" by (rule js_le_refl)
      then have "js_le (key y) (key x)" using e by simp
      then show "not_after cmp x y" using c(2) m by blast
    qed
    with spec[OF st, of "\<lambda>x. key x = k"]
    show "filter (\<lambda>x. key x = k) ys = filter (\<lambda>x. key x = k) xs"
      by (rule mp)
  qed
  then show ?thesis using ys so' ms by (intro exI[of _ ys] conjI)
qed

lemma consistent_on_collate:
  assumes "consistent_compare c"
  shows "consistent_on (\<lambda>a b. Inr (c (marca a) (marca b))) xs"
proof (rule consistent_on_signfun[where sg = "\<lambda>a b. js_sign (c (marca a) (marca b))"])
  show "\<forall>a\<in>set xs. \<forall>b\<in>set xs.
          sort_compare (\<lambda>a b. Inr (c (marca a) (marca b))) a b = Some (js_sign (c (marca a) (marca b)))"
    by (simp add: sort_compare_def)
  show "\<forall>a\<in>set xs. \<forall>b\<in>set xs. js_sign (c (marca b) (marca a)) = - js_sign (c (marca a) (marca b))"
    using assms unfolding consistent_compare_def by blast
  show "\<forall>a\<in>set xs. \<forall>b\<in>set xs. \<forall>d\<in>set xs.
          js_sign (c (marca a) (marca b)) = 0 \<and> js_sign (c (marca b) (marca d)) = 0
            \<longrightarrow> js_sign (c (marca a) (marca d)) = 0"
    using assms unfolding consistent_compare_def by blast
  show "\<forall>a\<in>set xs. \<forall>b\<in>set xs. \<forall>d\<in>set xs.
          js_sign (c (marca a) (marca b)) = - 1 \<and> js_sign (c (marca b) (marca d)) = - 1
            \<longrightarrow> js_sign (c (marca a) (marca d)) = - 1"
    using assms unfolding consistent_compare_def by blast
qed

lemma not_after_collate:
  "not_after (\<lambda>a b. Inr (c (marca a) (marca b))) x y \<longleftrightarrow> \<not> js_gt0 (c (marca x) (marca y))"
  by (simp add: not_after_def sort_compare_def js_sign_gt0)

lemma consistent_not_after_trans:
  assumes "consistent_compare c" "\<not> js_gt0 (c a b)" "\<not> js_gt0 (c b d)"
  shows "\<not> js_gt0 (c a d)"
proof -
  let ?sg = "\<lambda>a b. js_sign (c a b)"
  have "?sg a d \<noteq> 1"
  proof (rule sign_trans[of UNIV ?sg a b d])
    show "\<forall>a\<in>UNIV. \<forall>b\<in>UNIV. ?sg b a = - ?sg a b"
      using assms(1) unfolding consistent_compare_def by blast
    show "\<forall>a\<in>UNIV. \<forall>b\<in>UNIV. ?sg a b = - 1 \<or> ?sg a b = 0 \<or> ?sg a b = 1"
      using js_sign_range by blast
    show "\<forall>a\<in>UNIV. \<forall>b\<in>UNIV. \<forall>c\<in>UNIV. ?sg a b = 0 \<and> ?sg b c = 0 \<longrightarrow> ?sg a c = 0"
      using assms(1) unfolding consistent_compare_def by blast
    show "\<forall>a\<in>UNIV. \<forall>b\<in>UNIV. \<forall>c\<in>UNIV. ?sg a b = - 1 \<and> ?sg b c = - 1 \<longrightarrow> ?sg a c = - 1"
      using assms(1) unfolding consistent_compare_def by blast
    show "?sg a b \<noteq> 1" "?sg b d \<noteq> 1" using assms(2,3) by (simp_all add: js_sign_gt0)
  qed simp_all
  then show ?thesis by (simp add: js_sign_gt0)
qed

lemma consistent_refl: "consistent_compare c \<Longrightarrow> \<not> js_gt0 (c a a)"
proof -
  assume "consistent_compare c"
  then have "js_sign (c a a) = - js_sign (c a a)" unfolding consistent_compare_def by blast
  then have "js_sign (c a a) \<noteq> 1" by linarith
  then show ?thesis by (simp add: js_sign_gt0)
qed

lemma array_sort_collate:
  assumes cc: "consistent_compare c"
  shows "\<exists>ys. array_sort eng (\<lambda>a b. Inr (c (marca a) (marca b))) xs = Inr ys
            \<and> sorted_wrt (\<lambda>a b. \<not> js_gt0 (c (marca a) (marca b))) ys
            \<and> mset ys = mset xs
            \<and> (\<forall>k. filter (\<lambda>x. \<not> js_gt0 (c (marca x) k) \<and> \<not> js_gt0 (c k (marca x))) ys
                   = filter (\<lambda>x. \<not> js_gt0 (c (marca x) k) \<and> \<not> js_gt0 (c k (marca x))) xs)
            \<and> (\<forall>k. filter (\<lambda>x. marca x = k) ys = filter (\<lambda>x. marca x = k) xs)"
proof -
  let ?cmp = "\<lambda>a b. (Inr (c (marca a) (marca b)) :: error + jsnum)"
  have na: "not_after ?cmp = (\<lambda>a b. \<not> js_gt0 (c (marca a) (marca b)))"
    by (intro ext) (rule not_after_collate)
  from array_sort_consistent[OF consistent_on_collate[OF cc, of xs], of eng]
  obtain ys where ys: "array_sort eng ?cmp xs = Inr ys"
    and so: "sorted_wrt (\<lambda>a b. \<not> js_gt0 (c (marca a) (marca b))) ys" and ms: "mset ys = mset xs"
    and st: "\<forall>P. (\<forall>x\<in>set xs. \<forall>y\<in>set xs. P x \<and> P y \<longrightarrow> \<not> js_gt0 (c (marca x) (marca y)))
                      \<longrightarrow> filter P ys = filter P xs"
    unfolding na by blast
  have s1: "\<forall>k. filter (\<lambda>x. \<not> js_gt0 (c (marca x) k) \<and> \<not> js_gt0 (c k (marca x))) ys
                   = filter (\<lambda>x. \<not> js_gt0 (c (marca x) k) \<and> \<not> js_gt0 (c k (marca x))) xs"
  proof
    fix k
    let ?P = "\<lambda>x. \<not> js_gt0 (c (marca x) k) \<and> \<not> js_gt0 (c k (marca x))"
    have "\<forall>x\<in>set xs. \<forall>y\<in>set xs. ?P x \<and> ?P y \<longrightarrow> \<not> js_gt0 (c (marca x) (marca y))"
      using consistent_not_after_trans[OF cc] by blast
    with spec[OF st, of ?P] show "filter ?P ys = filter ?P xs" by (rule mp)
  qed
  have s2: "\<forall>k. filter (\<lambda>x. marca x = k) ys = filter (\<lambda>x. marca x = k) xs"
  proof
    fix k
    have "\<not> js_gt0 (c k k)" using cc by (rule consistent_refl)
    then have "\<forall>x\<in>set xs. \<forall>y\<in>set xs. marca x = k \<and> marca y = k \<longrightarrow> \<not> js_gt0 (c (marca x) (marca y))"
      by simp
    with spec[OF st, of "\<lambda>x. marca x = k"]
    show "filter (\<lambda>x. marca x = k) ys = filter (\<lambda>x. marca x = k) xs"
      by (rule mp)
  qed
  show ?thesis using ys so ms s1 s2 by (intro exI[of _ ys] conjI)
qed

lemma collation_primary:
  assumes pc: "portuguese_collation lc"
    and na: "\<not> js_gt0 (lc a b ''pt-BR'')"
    and la: "latin a" "latin b"
  shows "primary_key a \<le> primary_key b"
proof (rule ccontr)
  assume "\<not> primary_key a \<le> primary_key b"
  then have "primary_key b < primary_key a" by simp
  then have "js_lt0 (lc b a ''pt-BR'')" using pc la unfolding portuguese_collation_def by blast
  then have "js_sign (lc b a ''pt-BR'') = - 1" by (simp add: js_sign_lt0)
  moreover have "js_sign (lc a b ''pt-BR'') = - js_sign (lc b a ''pt-BR'')"
    using pc unfolding portuguese_collation_def consistent_compare_def by blast
  ultimately have "js_sign (lc a b ''pt-BR'') = 1" by linarith
  then show False using na by (simp add: js_sign_gt0)
qed

lemma sort_in_place_alloc:
  "sort_in_place eng (h @ [xs]) (length h) cmp =
     (case array_sort eng cmp xs of Inl e \<Rightarrow> (Inl e, h @ [xs]) | Inr ys \<Rightarrow> (Inr (length h), h @ [ys]))"
  by (simp add: sort_in_place_def split: sum.splits)

lemma sortImoveis_cases:
  "sortImoveis lc eng h data sortOption =
     (if sortOption = ''valor_asc'' then
        (case array_sort eng (\<lambda>a b. Inr (js_sub (cleanAndParseValue (preco_pcd a))
                                              (cleanAndParseValue (preco_pcd b)))) (h ! data) of
           Inl e \<Rightarrow> (Inl e, h @ [h ! data])
         | Inr ys \<Rightarrow> (Inr (length h), h @ [ys]))
      else if sortOption = ''marca_asc'' then
        (case array_sort eng (\<lambda>a b. Inr (lc (marca a) (marca b) ''pt-BR'')) (h ! data) of
           Inl e \<Rightarrow> (Inl e, h @ [h ! data])
         | Inr ys \<Rightarrow> (Inr (length h), h @ [ys]))
      else if sortOption = ''desconto_desc'' then
        (case array_sort eng (\<lambda>a b. Inr (js_sub (calculateDesconto b) (calculateDesconto a))) (h ! data) of
           Inl e \<Rightarrow> (Inl e, h @ [h ! data])
         | Inr ys \<Rightarrow> (Inr (length h), h @ [ys]))
      else (Inr data, h @ [h ! data]))"
  by (simp add: sortImoveis_def alloc_def sort_in_place_alloc Let_def)

lemma imoveis_sortImoveis_cases:
  "imoveis_sortImoveis lc eng h data sortOption =
     (if sortOption = ''valor_asc'' then
        (case array_sort eng (\<lambda>a b. case imoveis_cleanAndParseValue (valor a) of
                       Inl e \<Rightarrow> Inl e
                     | Inr valorA \<Rightarrow>
                         (case imoveis_cleanAndParseValue (valor b) of
                            Inl e \<Rightarrow> Inl e
                          | Inr valorB \<Rightarrow> Inr (js_sub valorA valorB))) (h ! data) of
           Inl e \<Rightarrow> (Inl e, h @ [h ! data])
         | Inr ys \<Rightarrow> (Inr (length h), h @ [ys]))
      else if sortOption = ''marca_asc'' then
        (case array_sort eng (\<lambda>a b. Inr (lc (marca a) (marca b) ''pt-BR'')) (h ! data) of
           Inl e \<Rightarrow> (Inl e, h @ [h ! data])
         | Inr ys \<Rightarrow> (Inr (length h), h @ [ys]))
      else (Inr data, h @ [h ! data]))"
  by (simp add: imoveis_sortImoveis_def alloc_def sort_in_place_alloc Let_def)

lemma sortImoveis_heap: "\<exists>ys. snd (sortImoveis lc eng h data sortOption) = h @ [ys]"
  by (simp add: sortImoveis_cases split: sum.splits)

lemma imoveis_sortImoveis_heap: "\<exists>ys. snd (imoveis_sortImoveis lc eng h data sortOption) = h @ [ys]"
  by (simp add: imoveis_sortImoveis_cases split: sum.splits)

text \<open>
  Claim C5. For every array of items, every sort option and every sorting engine,
  \<open>sortImoveis\<close> (of carros.js and of imoveis.js) leaves the input array, and every other
  array allocated before the call, as it was; with the option \<open>default\<close> it returns the
  input array itself, so the returned sequence is the input in its own order, whatever its
  length.
\<close>

theorem sortImoveis_frame:
  assumes "data < length h"
  shows "take (length h) (snd (sortImoveis lc eng h data sortOption)) = h
       \<and> snd (sortImoveis lc eng h data sortOption) ! data = h ! data
       \<and> take (length h) (snd (imoveis_sortImoveis lc eng h data sortOption)) = h
       \<and> snd (imoveis_sortImoveis lc eng h data sortOption) ! data = h ! data
       \<and> fst (sortImoveis lc eng h data ''default'') = Inr data
       \<and> snd (sortImoveis lc eng h data ''default'') ! data = h ! data
       \<and> fst (imoveis_sortImoveis lc eng h data ''default'') = Inr data
       \<and> snd (imoveis_sortImoveis lc eng h data ''default'') ! data = h ! data"
proof -
  obtain ys where ys: "snd (sortImoveis lc eng h data sortOption) = h @ [ys]"
    using sortImoveis_heap by blast
  obtain zs where zs: "snd (imoveis_sortImoveis lc eng h data sortOption) = h @ [zs]"
    using imoveis_sortImoveis_heap by blast
  have "fst (sortImoveis lc eng h data ''default'') = Inr data"
    and "snd (sortImoveis lc eng h data ''default'') ! data = h ! data"
    using assms by (simp_all add: sortImoveis_cases nth_append)
  moreover have "fst (imoveis_sortImoveis lc eng h data ''default'') = Inr data"
    and "snd (imoveis_sortImoveis lc eng h data ''default'') ! data = h ! data"
    using assms by (simp_all add: imoveis_sortImoveis_cases nth_append)
  ultimately show ?thesis using assms by (simp add: ys zs nth_append)
qed

theorem sortImoveis_frame_witness:
  "(0::nat) < length [[carro_fiat, carro_audi]]
   \<and> snd (sortImoveis lc_equal engine_keep [[carro_fiat, carro_audi]] 0 ''valor_asc'') ! 0
       = [carro_fiat, carro_audi]
   \<and> snd (imoveis_sortImoveis lc_equal engine_keep [[carro_fiat, carro_audi]] 0 ''valor_asc'') ! 0
       = [carro_fiat, carro_audi]
   \<and> fst (sortImoveis lc_equal engine_keep [[carro_fiat, carro_audi]] 0 ''default'') = Inr 0
   \<and> fst (imoveis_sortImoveis lc_equal engine_keep [[carro_fiat, carro_audi]] 0 ''default'') = Inr 0"
  using sortImoveis_frame [of 0 "[[carro_fiat, carro_audi]]" lc_equal engine_keep "''valor_asc''"]
  by simp

text \<open>
  Claim C9. For every array and every sort option other than \<open>valor_asc\<close>, \<open>marca_asc\<close>,
  \<open>desconto_desc\<close> and \<open>default\<close>, \<open>sortImoveis\<close> (of carros.js and of imoveis.js) does
  exactly what it does for \<open>default\<close>: it returns the input array, in its own order, and
  never an error.
\<close>

theorem sortImoveis_unrecognized:
  assumes "sortOption \<notin> {''valor_asc'', ''marca_asc'', ''desconto_desc'', ''default''}"
    and "data < length h"
  shows "sortImoveis lc eng h data sortOption = sortImoveis lc eng h data ''default''
       \<and> fst (sortImoveis lc eng h data sortOption) = Inr data
       \<and> snd (sortImoveis lc eng h data sortOption) ! data = h ! data
       \<and> imoveis_sortImoveis lc eng h data sortOption = imoveis_sortImoveis lc eng h data ''default''
       \<and> fst (imoveis_sortImoveis lc eng h data sortOption) = Inr data
       \<and> snd (imoveis_sortImoveis lc eng h data sortOption) ! data = h ! data"
  using assms by (simp add: sortImoveis_cases imoveis_sortImoveis_cases nth_append)

theorem sortImoveis_unrecognized_witness:
  "''preco_desc'' \<notin> {''valor_asc'', ''marca_asc'', ''desconto_desc'', ''default''}
   \<and> (0::nat) < length [[carro_fiat, carro_audi]]
   \<and> sortImoveis lc_equal engine_keep [[carro_fiat, carro_audi]] 0 ''preco_desc''
       = sortImoveis lc_equal engine_keep [[carro_fiat, carro_audi]] 0 ''default''
   \<and> fst (sortImoveis lc_equal engine_keep [[carro_fiat, carro_audi]] 0 ''preco_desc'') = Inr 0
   \<and> snd (sortImoveis lc_equal engine_keep [[carro_fiat, carro_audi]] 0 ''preco_desc'') ! 0
       = [[carro_fiat, carro_audi]] ! 0
   \<and> fst (imoveis_sortImoveis lc_equal engine_keep [[carro_fiat, carro_audi]] 0 ''preco_desc'') = Inr 0
   \<and> snd (imoveis_sortImoveis lc_equal engine_keep [[carro_fiat, carro_audi]] 0 ''preco_desc'') ! 0
       = [[carro_fiat, carro_audi]] ! 0"
proof -
  have opt: "''preco_desc'' \<notin> {''valor_asc'', ''marca_asc'', ''desconto_desc'', ''default''}"
    by simp
  have len: "(0::nat) < length [[carro_fiat, carro_audi]]"
    by simp
  from sortImoveis_unrecognized [OF opt len, of lc_equal engine_keep] opt len show ?thesis
    by blast
qed

lemma sortImoveis_valor_asc_sorted:
  "\<exists>ys. sortImoveis lc eng h data ''valor_asc'' = (Inr (length h), h @ [ys])
            \<and> sorted_wrt (\<lambda>a b. js_le (cleanAndParseValue (preco_pcd a))
                                      (cleanAndParseValue (preco_pcd b))) ys
            \<and> mset ys = mset (h ! data)
            \<and> (\<forall>k. filter (\<lambda>x. cleanAndParseValue (preco_pcd x) = k) ys
                   = filter (\<lambda>x. cleanAndParseValue (preco_pcd x) = k) (h ! data))"
proof -
  let ?key = "\<lambda>x::'a item_scheme. cleanAndParseValue (preco_pcd x)"
  let ?cmp = "\<lambda>a b::'a item_scheme. (Inr (js_sub (?key a) (?key b)) :: error + jsnum)"
  have keys: "\<forall>x\<in>set (h ! data). dbl (?key x) \<and> ?key x \<noteq> NaN"
    by (simp add: cleanAndParseValue_dbl cleanAndParseValue_not_NaN)
  have cmp: "\<forall>a\<in>set (h ! data). \<forall>b\<in>set (h ! data). ?cmp a b = Inr (js_sub (?key a) (?key b))"
    by simp
  from array_sort_by_key[of "h ! data" ?key ?cmp eng, OF keys cmp]
  obtain ys where ys: "array_sort eng ?cmp (h ! data) = Inr ys"
    and rest: "sorted_wrt (\<lambda>a b. js_le (?key a) (?key b)) ys" "mset ys = mset (h ! data)"
      "\<forall>k. filter (\<lambda>x. ?key x = k) ys = filter (\<lambda>x. ?key x = k) (h ! data)"
    by blast
  have "sortImoveis lc eng h data ''valor_asc'' = (Inr (length h), h @ [ys])"
    by (simp add: sortImoveis_cases ys)
  then show ?thesis using rest by (intro exI[of _ ys] conjI)
qed

lemma imoveis_valor_asc_sorted:
  assumes ok: "\<forall>x\<in>set (h ! data). imoveis_valor x \<noteq> NaN"
  shows "\<exists>ys. imoveis_sortImoveis lc eng h data ''valor_asc'' = (Inr (length h), h @ [ys])
               \<and> sorted_wrt (\<lambda>a b. js_le (imoveis_valor a) (imoveis_valor b)) ys
               \<and> mset ys = mset (h ! data)
               \<and> (\<forall>k. filter (\<lambda>x. imoveis_valor x = k) ys
                      = filter (\<lambda>x. imoveis_valor x = k) (h ! data))"
proof -
  let ?cmp = "\<lambda>a b::'a item_scheme. case imoveis_cleanAndParseValue (valor a) of
                       Inl e \<Rightarrow> Inl e
                     | Inr valorA \<Rightarrow>
                         (case imoveis_cleanAndParseValue (valor b) of
                            Inl e \<Rightarrow> Inl e
                          | Inr valorB \<Rightarrow> Inr (js_sub valorA valorB))"
  have keys: "\<forall>x\<in>set (h ! data). dbl (imoveis_valor x) \<and> imoveis_valor x \<noteq> NaN"
    using ok by (simp add: imoveis_valor_dbl)
  have cmp: "\<forall>a\<in>set (h ! data). \<forall>b\<in>set (h ! data).
               ?cmp a b = Inr (js_sub (imoveis_valor a) (imoveis_valor b))"
    using ok by (simp add: imoveis_valor_Inr)
  from array_sort_by_key[of "h ! data" imoveis_valor ?cmp eng, OF keys cmp]
  obtain ys where ys: "array_sort eng ?cmp (h ! data) = Inr ys"
    and rest: "sorted_wrt (\<lambda>a b. js_le (imoveis_valor a) (imoveis_valor b)) ys"
      "mset ys = mset (h ! data)"
      "\<forall>k. filter (\<lambda>x. imoveis_valor x = k) ys = filter (\<lambda>x. imoveis_valor x = k) (h ! data)"
    by blast
  have "imoveis_sortImoveis lc eng h data ''valor_asc'' = (Inr (length h), h @ [ys])"
    by (simp add: imoveis_sortImoveis_cases ys)
  then show ?thesis using rest by (intro exI[of _ ys] conjI)
qed

lemma sortImoveis_desconto_desc_sorted:
  assumes "\<forall>x\<in>set (h ! data). calculateDesconto x \<noteq> NaN"
  shows "\<exists>ys. sortImoveis lc eng h data ''desconto_desc'' = (Inr (length h), h @ [ys])
            \<and> sorted_wrt (\<lambda>a b. js_le (calculateDesconto b) (calculateDesconto a)) ys
            \<and> mset ys = mset (h ! data)
            \<and> (\<forall>k. filter (\<lambda>x. calculateDesconto x = k) ys
                   = filter (\<lambda>x. calculateDesconto x = k) (h ! data))"
proof -
  let ?cmp = "\<lambda>a b::'a item_scheme. (Inr (js_sub (calculateDesconto b) (calculateDesconto a)) :: error + jsnum)"
  have keys: "\<forall>x\<in>set (h ! data). dbl (calculateDesconto x) \<and> calculateDesconto x \<noteq> NaN"
    using assms by (simp add: calculateDesconto_dbl)
  have cmp: "\<forall>a\<in>set (h ! data). \<forall>b\<in>set (h ! data).
               ?cmp a b = Inr (js_sub (calculateDesconto b) (calculateDesconto a))"
    by simp
  from array_sort_by_key_desc[of "h ! data" calculateDesconto ?cmp eng, OF keys cmp]
  obtain ys where ys: "array_sort eng ?cmp (h ! data) = Inr ys"
    and rest: "sorted_wrt (\<lambda>a b. js_le (calculateDesconto b) (calculateDesconto a)) ys"
      "mset ys = mset (h ! data)"
      "\<forall>k. filter (\<lambda>x. calculateDesconto x = k) ys = filter (\<lambda>x. calculateDesconto x = k) (h ! data)"
    by blast
  have "sortImoveis lc eng h data ''desconto_desc'' = (Inr (length h), h @ [ys])"
    by (simp add: sortImoveis_cases ys Let_def)
  then show ?thesis using rest by (intro exI[of _ ys] conjI)
qed

text \<open>
  Claim C8. Let \<open>lc\<close> be the \<open>localeCompare\<close> of the runtime, called as the code calls it,
  with the locale \<open>pt-BR\<close>, and let it be a Portuguese collation: consistent, and ordering
  brands written in Latin letters first by their letters without accent and without case.
  Then for every array and every sorting engine \<open>sortImoveis\<close> with \<open>marca_asc\<close> (of
  carros.js and of imoveis.js) returns a fresh array that is a permutation of the input,
  non-decreasing in the brand under the collation; so a brand with an accented letter
  stands where its base letter puts it and not behind \<open>z\<close>, where the order of the code
  units would put it. Items of brands that collate equal, and so items of the same brand,
  keep their input order.
\<close>

theorem sortImoveis_marca_asc:
  assumes "data < length h"
    and pc: "portuguese_collation lc"
  shows "(\<exists>ys. sortImoveis lc eng h data ''marca_asc'' = (Inr (length h), h @ [ys])
            \<and> sorted_wrt (\<lambda>a b. \<not> js_gt0 (lc (marca a) (marca b) ''pt-BR'')) ys
            \<and> sorted_wrt (\<lambda>a b. latin (marca a) \<and> latin (marca b)
                                    \<longrightarrow> primary_key (marca a) \<le> primary_key (marca b)) ys
            \<and> mset ys = mset (h ! data)
            \<and> (\<forall>k. filter (\<lambda>x. \<not> js_gt0 (lc (marca x) k ''pt-BR'')
                                  \<and> \<not> js_gt0 (lc k (marca x) ''pt-BR'')) ys
                   = filter (\<lambda>x. \<not> js_gt0 (lc (marca x) k ''pt-BR'')
                                  \<and> \<not> js_gt0 (lc k (marca x) ''pt-BR'')) (h ! data))
            \<and> (\<forall>k. filter (\<lambda>x. marca x = k) ys = filter (\<lambda>x. marca x = k) (h ! data)))
       \<and> (\<exists>ys. imoveis_sortImoveis lc eng h data ''marca_asc'' = (Inr (length h), h @ [ys])
            \<and> sorted_wrt (\<lambda>a b. \<not> js_gt0 (lc (marca a) (marca b) ''pt-BR'')) ys
            \<and> sorted_wrt (\<lambda>a b. latin (marca a) \<and> latin (marca b)
                                    \<longrightarrow> primary_key (marca a) \<le> primary_key (marca b)) ys
            \<and> mset ys = mset (h ! data)
            \<and> (\<forall>k. filter (\<lambda>x. \<not> js_gt0 (lc (marca x) k ''pt-BR'')
                                  \<and> \<not> js_gt0 (lc k (marca x) ''pt-BR'')) ys
                   = filter (\<lambda>x. \<not> js_gt0 (lc (marca x) k ''pt-BR'')
                                  \<and> \<not> js_gt0 (lc k (marca x) ''pt-BR'')) (h ! data))
            \<and> (\<forall>k. filter (\<lambda>x. marca x = k) ys = filter (\<lambda>x. marca x = k) (h ! data)))"
proof -
  let ?c = "\<lambda>a b. lc a b ''pt-BR''"
  have cc: "consistent_compare ?c" using pc unfolding portuguese_collation_def by blast
  from array_sort_collate[OF cc, of eng "h ! data"]
  obtain ys where ys: "array_sort eng (\<lambda>a b. Inr (lc (marca a) (marca b) ''pt-BR'')) (h ! data) = Inr ys"
    and so: "sorted_wrt (\<lambda>a b. \<not> js_gt0 (lc (marca a) (marca b) ''pt-BR'')) ys"
    and rest: "mset ys = mset (h ! data)"
      "\<forall>k. filter (\<lambda>x. \<not> js_gt0 (lc (marca x) k ''pt-BR'') \<and> \<not> js_gt0 (lc k (marca x) ''pt-BR'')) ys
           = filter (\<lambda>x. \<not> js_gt0 (lc (marca x) k ''pt-BR'') \<and> \<not> js_gt0 (lc k (marca x) ''pt-BR''))
               (h ! data)"
      "\<forall>k. filter (\<lambda>x. marca x = k) ys = filter (\<lambda>x. marca x = k) (h ! data)"
    by blast
  have "\<forall>a\<in>set ys. \<forall>b\<in>set ys. \<not> js_gt0 (lc (marca a) (marca b) ''pt-BR'')
          \<longrightarrow> (latin (marca a) \<and> latin (marca b) \<longrightarrow> primary_key (marca a) \<le> primary_key (marca b))"
    using collation_primary[OF pc] by blast
  then have pk: "sorted_wrt (\<lambda>a b. latin (marca a) \<and> latin (marca b)
                                    \<longrightarrow> primary_key (marca a) \<le> primary_key (marca b)) ys"
    using so by (rule sorted_wrt_cong_set)
  have "sortImoveis lc eng h data ''marca_asc'' = (Inr (length h), h @ [ys])"
    by (simp add: sortImoveis_cases ys)
  moreover have "imoveis_sortImoveis lc eng h data ''marca_asc'' = (Inr (length h), h @ [ys])"
    by (simp add: imoveis_sortImoveis_cases ys)
  ultimately show ?thesis using so pk rest by (intro conjI exI[of _ ys])
qed

lemma portuguese_lc_fold: "portuguese_collation lc_fold"
  unfolding portuguese_collation_def consistent_compare_def lc_fold_def js_sign_def
  by auto

lemma primary_key_brands:
  "primary_key (marca carro_zeta) = [90, 69, 84, 65]"
  "primary_key (marca carro_alfa) = [65, 76, 70, 65]"
  "primary_key (marca carro_alamo) = [65, 76, 65, 77, 79]"
  by (simp_all add: primary_key_def fold_letter_def carro_zeta_def carro_alfa_def carro_alamo_def)

lemma latin_brands:
  "latin (marca carro_zeta)" "latin (marca carro_alfa)" "latin (marca carro_alamo)"
  by (simp_all add: latin_def is_latin_def carro_zeta_def carro_alfa_def carro_alamo_def)

lemma lc_fold_brands:
  "lc_fold (marca carro_alamo) (marca carro_alfa) loc = Fin (- 1)"
  "lc_fold (marca carro_alfa) (marca carro_zeta) loc = Fin (- 1)"
  "lc_fold (marca carro_alamo) (marca carro_zeta) loc = Fin (- 1)"
  "lc_fold (marca carro_zeta) (marca carro_alamo) loc = Fin 1"
  "lc_fold (marca carro_zeta) (marca carro_alfa) loc = Fin 1"
  "lc_fold (marca carro_alfa) (marca carro_alamo) loc = Fin 1"
  by (simp_all add: lc_fold_def primary_key_brands)

lemma brand_heap_simps: "length brand_heap = 1" "brand_heap ! 0 = [carro_zeta, carro_alamo, carro_alfa]"
  by (simp_all add: brand_heap_def)

lemma brand_sort:
  "sortImoveis lc_fold eng brand_heap 0 ''marca_asc''
     = (Inr 1, brand_heap @ [[carro_alamo, carro_alfa, carro_zeta]])"
proof -
  have cc: "consistent_compare (\<lambda>a b. lc_fold a b ''pt-BR'')"
    using portuguese_lc_fold unfolding portuguese_collation_def by blast
  have "array_sort eng (\<lambda>a b. Inr (lc_fold (marca a) (marca b) ''pt-BR'')) [carro_zeta, carro_alamo, carro_alfa]
        = insertion_sort (\<lambda>a b. Inr (lc_fold (marca a) (marca b) ''pt-BR'')) [carro_zeta, carro_alamo, carro_alfa]"
    unfolding array_sort_def using consistent_on_collate[OF cc, of "[carro_zeta, carro_alamo, carro_alfa]"]
    by (simp only: if_True)
  also have "\<dots> = Inr [carro_alamo, carro_alfa, carro_zeta]"
    by (simp add: lc_fold_brands)
  finally show ?thesis by (simp add: sortImoveis_cases brand_heap_simps)
qed

theorem sortImoveis_marca_asc_witness:
  "(0::nat) < length brand_heap
   \<and> portuguese_collation lc_fold
   \<and> sortImoveis lc_fold engine_keep brand_heap 0 ''marca_asc''
       = (Inr 1, brand_heap @ [[carro_alamo, carro_alfa, carro_zeta]])
   \<and> (\<exists>ys. sortImoveis lc_fold engine_keep brand_heap 0 ''marca_asc''
               = (Inr (length brand_heap), brand_heap @ [ys])
            \<and> sorted_wrt (\<lambda>a b. \<not> js_gt0 (lc_fold (marca a) (marca b) ''pt-BR'')) ys
            \<and> sorted_wrt (\<lambda>a b. latin (marca a) \<and> latin (marca b)
                                    \<longrightarrow> primary_key (marca a) \<le> primary_key (marca b)) ys
            \<and> mset ys = mset (brand_heap ! 0)
            \<and> (\<forall>k. filter (\<lambda>x. \<not> js_gt0 (lc_fold (marca x) k ''pt-BR'')
                                  \<and> \<not> js_gt0 (lc_fold k (marca x) ''pt-BR'')) ys
                   = filter (\<lambda>x. \<not> js_gt0 (lc_fold (marca x) k ''pt-BR'')
                                  \<and> \<not> js_gt0 (lc_fold k (marca x) ''pt-BR'')) (brand_heap ! 0))
            \<and> (\<forall>k. filter (\<lambda>x. marca x = k) ys = filter (\<lambda>x. marca x = k) (brand_heap ! 0)))
   \<and> (\<exists>ys. imoveis_sortImoveis lc_fold engine_keep brand_heap 0 ''marca_asc''
               = (Inr (length brand_heap), brand_heap @ [ys])
            \<and> sorted_wrt (\<lambda>a b. \<not> js_gt0 (lc_fold (marca a) (marca b) ''pt-BR'')) ys
            \<and> sorted_wrt (\<lambda>a b. latin (marca a) \<and> latin (marca b)
                                    \<longrightarrow> primary_key (marca a) \<le> primary_key (marca b)) ys
            \<and> mset ys = mset (brand_heap ! 0)
            \<and> (\<forall>k. filter (\<lambda>x. \<not> js_gt0 (lc_fold (marca x) k ''pt-BR'')
                                  \<and> \<not> js_gt0 (lc_fold k (marca x) ''pt-BR'')) ys
                   = filter (\<lambda>x. \<not> js_gt0 (lc_fold (marca x) k ''pt-BR'')
                                  \<and> \<not> js_gt0 (lc_fold k (marca x) ''pt-BR'')) (brand_heap ! 0))
            \<and> (\<forall>k. filter (\<lambda>x. marca x = k) ys = filter (\<lambda>x. marca x = k) (brand_heap ! 0)))"
proof -
  have len: "(0::nat) < length brand_heap" by (simp add: brand_heap_simps)
  note t = sortImoveis_marca_asc [OF len portuguese_lc_fold, of engine_keep]
  show ?thesis using len portuguese_lc_fold brand_sort [of engine_keep] t [THEN conjunct1] t [THEN conjunct2]
    by (intro conjI)
qed

lemma desconto_pair_consistent:
  "consistent_on (\<lambda>a b. Inr (js_sub (calculateDesconto b) (calculateDesconto a)))
     [carro_fiat, carro_huge]"
  by (simp add: consistent_on_def sort_compare_def js_sign_def calculateDesconto_examples
      round_double_0)

lemma desconto_triple_inconsistent:
  "\<not> consistent_on (\<lambda>a b. Inr (js_sub (calculateDesconto b) (calculateDesconto a)))
       [carro_fiat, carro_huge, carro_audi]"
proof
  let ?cmp = "\<lambda>a b::item. (Inr (js_sub (calculateDesconto b) (calculateDesconto a)) :: error + jsnum)"
  assume c: "consistent_on ?cmp [carro_fiat, carro_huge, carro_audi]"
  have 1: "sort_compare ?cmp carro_fiat carro_huge = Some 0"
    and 2: "sort_compare ?cmp carro_huge carro_audi = Some 0"
    and 3: "sort_compare ?cmp carro_fiat carro_audi = Some 1"
    by (simp_all add: sort_compare_def js_sign_def calculateDesconto_examples round_double_numeral)
  note t0 = c [unfolded consistent_on_def, THEN conjunct2, THEN conjunct1]
  have "sort_compare ?cmp carro_fiat carro_huge = Some 0 \<and> sort_compare ?cmp carro_huge carro_audi = Some 0
          \<longrightarrow> sort_compare ?cmp carro_fiat carro_audi = Some 0"
    by (rule t0 [THEN bspec, THEN bspec, THEN bspec]) simp_all
  then have "sort_compare ?cmp carro_fiat carro_audi = Some 0"
    by (rule mp) (rule conjI [OF 1 2])
  then show False unfolding 3 by simp
qed

text \<open>
  Claim C7. \<open>calculateDesconto\<close> is documented to return 0 and never NaN on an error, but
  its guards (\<open>typeof\<close> after \<open>cleanAndParseValue\<close>, and \<open>isNaN\<close> inside it) let an infinite
  price through: for an item whose two prices have 310 digits both parse to \<open>Infinity\<close> and
  the discount is \<open>Infinity - Infinity\<close>, NaN. Next to an item of discount 25 the comparator
  of \<open>desconto_desc\<close> then returns NaN, the two items stay in their input order, and the
  result is not non-increasing in the discount: NaN is not below 25. With a third item of
  discount 30 the comparator is no longer consistent and the order of the result is
  whatever the engine makes of it.
\<close>

theorem calculateDesconto_NaN:
  "cleanAndParseValue (Some huge_price) = PInf
   \<and> calculateDesconto carro_huge = NaN
   \<and> calculateDesconto carro_fiat = Fin 25
   \<and> sortImoveis lc eng [[carro_fiat, carro_huge]] 0 ''desconto_desc''
       = (Inr 1, [[carro_fiat, carro_huge], [carro_fiat, carro_huge]])
   \<and> \<not> js_le (calculateDesconto carro_huge) (calculateDesconto carro_fiat)
   \<and> sortImoveis lc eng [[carro_fiat, carro_huge, carro_audi]] 0 ''desconto_desc''
       = (case eng (\<lambda>a b. Inr (js_sub (calculateDesconto b) (calculateDesconto a)))
                 [carro_fiat, carro_huge, carro_audi] of
            Inl e \<Rightarrow> (Inl e, [[carro_fiat, carro_huge, carro_audi],
                              [carro_fiat, carro_huge, carro_audi]])
          | Inr ys \<Rightarrow> (Inr 1, [[carro_fiat, carro_huge, carro_audi], ys]))"
proof -
  let ?cmp = "\<lambda>a b::item. (Inr (js_sub (calculateDesconto b) (calculateDesconto a)) :: error + jsnum)"
  have "array_sort eng ?cmp [carro_fiat, carro_huge] = insertion_sort ?cmp [carro_fiat, carro_huge]"
    unfolding array_sort_def using desconto_pair_consistent by (simp only: if_True)
  also have "\<dots> = Inr [carro_fiat, carro_huge]"
    by (simp add: calculateDesconto_examples)
  finally have two: "sortImoveis lc eng [[carro_fiat, carro_huge]] 0 ''desconto_desc''
       = (Inr 1, [[carro_fiat, carro_huge], [carro_fiat, carro_huge]])"
    by (simp add: sortImoveis_cases)
  have "array_sort eng ?cmp [carro_fiat, carro_huge, carro_audi] = eng ?cmp [carro_fiat, carro_huge, carro_audi]"
    unfolding array_sort_def using desconto_triple_inconsistent by (simp only: if_False)
  then have three: "sortImoveis lc eng [[carro_fiat, carro_huge, carro_audi]] 0 ''desconto_desc''
       = (case eng ?cmp [carro_fiat, carro_huge, carro_audi] of
            Inl e \<Rightarrow> (Inl e, [[carro_fiat, carro_huge, carro_audi],
                              [carro_fiat, carro_huge, carro_audi]])
          | Inr ys \<Rightarrow> (Inr 1, [[carro_fiat, carro_huge, carro_audi], ys]))"
    by (simp add: sortImoveis_cases split: sum.splits)
  have "\<not> js_le (calculateDesconto carro_huge) (calculateDesconto carro_fiat)"
    by (simp add: calculateDesconto_examples)
  then show ?thesis using two three huge_price_PInf calculateDesconto_examples(1,3)
    by (intro conjI)
qed

lemma valor_pair_consistent:
  "consistent_on (\<lambda>a b. case imoveis_cleanAndParseValue (valor a) of
                       Inl e \<Rightarrow> Inl e
                     | Inr valorA \<Rightarrow>
                         (case imoveis_cleanAndParseValue (valor b) of
                            Inl e \<Rightarrow> Inl e
                          | Inr valorB \<Rightarrow> Inr (js_sub valorA valorB)))
     [imovel_consulta, imovel_um]"
  by (simp add: consistent_on_def sort_compare_def js_sign_def imoveis_parse_examples
      round_double_0)

text \<open>
  Claim C6. The \<open>cleanAndParseValue\<close> of imoveis.js lacks the guards that its sibling of
  carros.js has: for the value \<open>Sob consulta\<close> it returns NaN, and for an item without
  \<open>valor\<close> it throws a TypeError, where the function of carros.js returns 0 for both. With
  \<open>valor_asc\<close> an item whose value is NaN therefore compares equal to every other item and
  stays in front of an item of value 1: the result is not non-decreasing in the parsed
  value.
\<close>

theorem imoveis_valor_unguarded:
  "imoveis_cleanAndParseValue (valor imovel_consulta) = Inr NaN
   \<and> imoveis_cleanAndParseValue (valor imovel_sem_valor) = Inl TypeError
   \<and> cleanAndParseValue (valor imovel_consulta) = Fin 0
   \<and> cleanAndParseValue (valor imovel_sem_valor) = Fin 0
   \<and> imoveis_valor imovel_consulta = NaN
   \<and> imoveis_valor imovel_um = Fin 1
   \<and> imoveis_sortImoveis lc eng [[imovel_consulta, imovel_um]] 0 ''valor_asc''
       = (Inr 1, [[imovel_consulta, imovel_um], [imovel_consulta, imovel_um]])
   \<and> \<not> js_le (imoveis_valor imovel_consulta) (imoveis_valor imovel_um)"
proof -
  let ?cmp = "\<lambda>a b::item. case imoveis_cleanAndParseValue (valor a) of
                       Inl e \<Rightarrow> Inl e
                     | Inr valorA \<Rightarrow>
                         (case imoveis_cleanAndParseValue (valor b) of
                            Inl e \<Rightarrow> Inl e
                          | Inr valorB \<Rightarrow> Inr (js_sub valorA valorB))"
  have "array_sort eng ?cmp [imovel_consulta, imovel_um] = insertion_sort ?cmp [imovel_consulta, imovel_um]"
    unfolding array_sort_def using valor_pair_consistent by (simp only: if_True)
  also have "\<dots> = Inr [imovel_consulta, imovel_um]"
    by (simp add: imoveis_parse_examples)
  finally have two: "imoveis_sortImoveis lc eng [[imovel_consulta, imovel_um]] 0 ''valor_asc''
       = (Inr 1, [[imovel_consulta, imovel_um], [imovel_consulta, imovel_um]])"
    by (simp add: imoveis_sortImoveis_cases)
  have sib: "cleanAndParseValue (valor imovel_consulta) = Fin 0"
    "cleanAndParseValue (valor imovel_sem_valor) = Fin 0"
    by (simp_all add: imovel_consulta_def imovel_sem_valor_def parse_eval)
  have "\<not> js_le (imoveis_valor imovel_consulta) (imoveis_valor imovel_um)"
    by (simp add: imoveis_valor_examples)
  then show ?thesis using two sib imoveis_parse_examples(3,4) imoveis_valor_examples(2,3)
    by (intro conjI)
qed

end
